theory Spec2Isabelle
  imports Main "HOL-Library.Word"
begin

section \<open>Memory model shared by the argument classes\<close>

text \<open>
  The classes of \<^verbatim>\<open>arguments.hpp\<close> keep their strings in C-heap buffers that they
  allocate, copy into and free by hand. A non-null pointer is an address, \<^verbatim>\<open>NULL\<close> is
  \<open>None\<close>, and the C heap maps the address of each live \<^verbatim>\<open>char\<close> buffer to the string it
  holds (the bytes before the terminating NUL). The capacity of a buffer is not tracked.
\<close>

type_synonym addr = nat
type_synonym ptr = "addr option"
type_synonym cheap = "addr \<rightharpoonup> string"

text \<open>
  \<^verbatim>\<open>AllocateHeap\<close> is declared in \<^verbatim>\<open>memory/allocation.hpp\<close>, which is not part of the
  file; the allocator is therefore a parameter: given the heap and the requested size it
  answers \<^verbatim>\<open>NULL\<close> or the address of the new buffer.
\<close>

type_synonym allocator = "cheap \<Rightarrow> nat \<Rightarrow> ptr"

datatype error =
    assertion_failed string
  | invalid_memory_access

text \<open>
  Modelled from the spec: the \<^verbatim>\<open>assert\<close> macro of \<^verbatim>\<open>utilities/debug.hpp\<close> is missing.
  The spec calls a violated assertion a programming error that is fatal, not recoverable:
  where assertions are in force, a false condition ends the run with the assertion's
  message. The file follows each of its assertions with a guard on the same condition
  (\<^verbatim>\<open>if (curr != NULL)\<close>, \<^verbatim>\<open>if (_value != NULL) ... else return false\<close>), which is the
  code of the run that goes on past the assertion. Whether assertions are in force is
  therefore the parameter \<open>asserts\<close> of every function that asserts; without them the
  macro does nothing.
\<close>

definition assert :: "bool \<Rightarrow> bool \<Rightarrow> string \<Rightarrow> error + unit" where
  "assert asserts c msg = (if asserts \<and> \<not> c then Inl (assertion_failed msg) else Inr ())"

definition FreeHeap :: "cheap \<Rightarrow> addr \<Rightarrow> cheap" where
  "FreeHeap h a = h(a := None)"

definition strcpy :: "cheap \<Rightarrow> addr \<Rightarrow> string \<Rightarrow> cheap" where
  "strcpy h dst src = h(dst \<mapsto> src)"

definition strcat :: "cheap \<Rightarrow> addr \<Rightarrow> string \<Rightarrow> cheap" where
  "strcat h dst src = (case h dst of None \<Rightarrow> h | Some t \<Rightarrow> h(dst \<mapsto> t @ src))"

text \<open>Reading the C string behind a pointer; a pointer to no live buffer cannot be read.\<close>

definition cstring :: "cheap \<Rightarrow> addr \<Rightarrow> error + string" where
  "cstring h a = (case h a of None \<Rightarrow> Inl invalid_memory_access | Some s \<Rightarrow> Inr s)"


section \<open>PathString\<close>

record PathString =
  m_value :: ptr

text \<open>
  \<^verbatim>\<open>bool set_value(const char *value)\<close>: frees the old buffer, allocates
  \<^verbatim>\<open>strlen(value)+1\<close> bytes, asserts the allocation, copies. The argument is the C
  string the caller passes (it must not be \<^verbatim>\<open>NULL\<close>: \<^verbatim>\<open>strlen\<close> reads it).
\<close>

definition set_value ::
  "bool \<Rightarrow> allocator \<Rightarrow> string \<Rightarrow> cheap \<times> 'a PathString_scheme \<Rightarrow> error + (bool \<times> cheap \<times> 'a PathString_scheme)"
where
  "set_value asserts alloc val = (\<lambda>(h, this).
     let h1 = (case m_value this of None \<Rightarrow> h | Some a \<Rightarrow> FreeHeap h a);
         p = alloc h1 (length val + 1);
         this1 = this\<lparr>m_value := p\<rparr>
     in case assert asserts (p \<noteq> None) ''Unable to allocate space for new path value'' of
          Inl e \<Rightarrow> Inl e
        | Inr _ \<Rightarrow>
            (case p of
               Some a \<Rightarrow> Inr (True, strcpy h1 a val, this1)
             | None \<Rightarrow> Inr (False, h1, this1)))"

text \<open>
  \<^verbatim>\<open>void append_value(const char *value)\<close>. The platform's \<^verbatim>\<open>os::path_separator()\<close>
  is not part of the file and is the parameter \<open>sep\<close>. A \<^verbatim>\<open>NULL\<close> argument changes
  nothing. What \<^verbatim>\<open>strlen(_value)\<close> and \<^verbatim>\<open>strcpy(sp, _value)\<close> read is
  \<open>current_string\<close>; it counts only when \<^verbatim>\<open>_value\<close> is not \<^verbatim>\<open>NULL\<close>.
\<close>

definition current_string :: "cheap \<Rightarrow> 'a PathString_scheme \<Rightarrow> error + string" where
  "current_string h this = (case m_value this of None \<Rightarrow> Inr Nil | Some a \<Rightarrow> cstring h a)"

definition append_value ::
  "bool \<Rightarrow> allocator \<Rightarrow> string \<Rightarrow> string option \<Rightarrow> cheap \<times> 'a PathString_scheme \<Rightarrow> error + (cheap \<times> 'a PathString_scheme)"
where
  "append_value asserts alloc sep val = (\<lambda>(h, this).
     case val of
       None \<Rightarrow> Inr (h, this)
     | Some v \<Rightarrow>
         (case current_string h this of
            Inl e \<Rightarrow> Inl e
          | Inr old \<Rightarrow>
              let len = length v + length old;
                  sp = alloc h (len + 2)
              in (case assert asserts (sp \<noteq> None) ''Unable to allocate space for new append path value'' of
                    Inl e \<Rightarrow> Inl e
                  | Inr _ \<Rightarrow>
                      (case sp of
                         None \<Rightarrow> Inr (h, this)
                       | Some b \<Rightarrow>
                           (case m_value this of
                              Some a \<Rightarrow>
                                Inr (FreeHeap (strcat (strcat (strcpy h b old) b sep) b v) a,
                                     this\<lparr>m_value := Some b\<rparr>)
                            | None \<Rightarrow> Inr (strcpy h b v, this\<lparr>m_value := Some b\<rparr>))))))"

text \<open>\<^verbatim>\<open>PathString(const char* value)\<close>: a \<^verbatim>\<open>NULL\<close> value stays \<^verbatim>\<open>NULL\<close>, otherwise a copy.\<close>

definition new_PathString :: "allocator \<Rightarrow> string option \<Rightarrow> cheap \<Rightarrow> error + (cheap \<times> PathString)" where
  "new_PathString alloc val h =
     (case val of
        None \<Rightarrow> Inr (h, \<lparr>m_value = None\<rparr>)
      | Some v \<Rightarrow>
          (case alloc h (length v + 1) of
             None \<Rightarrow> Inl invalid_memory_access
           | Some a \<Rightarrow> Inr (strcpy h a v, \<lparr>m_value = Some a\<rparr>)))"


section \<open>SystemProperty\<close>

text \<open>
  A \<^verbatim>\<open>SystemProperty\<close> is a \<^verbatim>\<open>PathString\<close> with a key and two flags. The \<^verbatim>\<open>_next\<close>
  pointer of the class chains the nodes of the property list; the list itself is kept as
  the sequence of its nodes.
\<close>

record SystemProperty = PathString +
  m_key :: "string option"
  m_internal :: bool
  m_writeable :: bool

definition writeable :: "SystemProperty \<Rightarrow> bool" where
  "writeable this = m_writeable this"

definition set_writeable_value ::
  "bool \<Rightarrow> allocator \<Rightarrow> string \<Rightarrow> cheap \<times> SystemProperty \<Rightarrow> error + (bool \<times> cheap \<times> SystemProperty)"
where
  "set_writeable_value asserts alloc val = (\<lambda>(h, this).
     if writeable this then set_value asserts alloc val (h, this)
     else Inr (False, h, this))"


section \<open>The boot class loader's append index\<close>

text \<open>
  \<^verbatim>\<open>static int _bootclassloader_append_index\<close>: a 32-bit integer, read as signed by
  \<open>sint\<close>; the sentinel \<^verbatim>\<open>-1\<close> is the word of all ones. The second argument is the
  static field before the call, the result the field after it.
\<close>

definition set_bootclassloader_append_index :: "32 word \<Rightarrow> 32 word \<Rightarrow> 32 word" where
  "set_bootclassloader_append_index val idx = (if idx = - 1 then val else idx)"


section \<open>Agent libraries and their lists\<close>

datatype AgentState = agent_invalid | agent_valid

text \<open>
  An \<^verbatim>\<open>AgentLibrary\<close> object. The name and the options are copies owned by the object;
  \<^verbatim>\<open>_os_lib\<close> is an opaque handle and \<^verbatim>\<open>_next\<close> the link to the following object of
  the list the object is in.
\<close>

record AgentLibrary =
  a_name :: string
  a_options :: "string option"
  a_os_lib :: ptr
  a_is_absolute_path :: bool
  a_is_static_lib :: bool
  a_state :: AgentState
  a_next :: ptr

text \<open>The \<^verbatim>\<open>AgentLibrary\<close> objects that exist, by address.\<close>

type_synonym agent_store = "addr \<rightharpoonup> AgentLibrary"

definition new_AgentLibrary :: "string \<Rightarrow> string option \<Rightarrow> bool \<Rightarrow> ptr \<Rightarrow> AgentLibrary" where
  "new_AgentLibrary name options is_absolute_path os_lib =
     \<lparr>a_name = name, a_options = options, a_os_lib = os_lib,
      a_is_absolute_path = is_absolute_path, a_is_static_lib = False,
      a_state = agent_invalid, a_next = None\<rparr>"

record AgentLibraryList =
  l_first :: ptr
  l_last :: ptr

definition new_AgentLibraryList :: AgentLibraryList where
  "new_AgentLibraryList = \<lparr>l_first = None, l_last = None\<rparr>"

definition is_empty_list :: "AgentLibraryList \<Rightarrow> bool" where
  "is_empty_list this = (l_first this = None)"

text \<open>The assignment \<^verbatim>\<open>p->_next = n\<close>; \<open>p\<close> has to point to an object.\<close>

definition set_next :: "agent_store \<Rightarrow> addr \<Rightarrow> ptr \<Rightarrow> error + agent_store" where
  "set_next st p n =
     (case st p of
        None \<Rightarrow> Inl invalid_memory_access
      | Some node \<Rightarrow> Inr (st(p \<mapsto> node\<lparr>a_next := n\<rparr>)))"

text \<open>\<^verbatim>\<open>void add(AgentLibrary* lib)\<close>: add to the end of the list.\<close>

definition add ::
  "addr \<Rightarrow> agent_store \<times> AgentLibraryList \<Rightarrow> error + (agent_store \<times> AgentLibraryList)"
where
  "add lib = (\<lambda>(st, this).
     case (if is_empty_list this
           then Inr (st, this\<lparr>l_first := Some lib, l_last := Some lib\<rparr>)
           else (case l_last this of
                   None \<Rightarrow> Inl invalid_memory_access
                 | Some la \<Rightarrow>
                     (case set_next st la (Some lib) of
                        Inl e \<Rightarrow> Inl e
                      | Inr st1 \<Rightarrow> Inr (st1, this\<lparr>l_last := Some lib\<rparr>)))) of
       Inl e \<Rightarrow> Inl e
     | Inr (st1, this1) \<Rightarrow>
         (case set_next st1 lib None of
            Inl e \<Rightarrow> Inl e
          | Inr st2 \<Rightarrow> Inr (st2, this1)))"

text \<open>
  The search loop of \<^verbatim>\<open>remove\<close>:
  \<^verbatim>\<open>for (curr = first(); curr != NULL; prev = curr, curr = curr->next()) if (curr == lib) break;\<close>
  It yields the final \<open>cur\<close> (the source's \<^verbatim>\<open>curr\<close>) and \<open>prev\<close>. On a chain of links that never reaches
  \<^verbatim>\<open>NULL\<close> or \<open>lib\<close> the loop does not end, which is the value \<open>None\<close>.
\<close>

partial_function (option) remove_scan ::
  "agent_store \<Rightarrow> addr \<Rightarrow> ptr \<Rightarrow> ptr \<Rightarrow> (error + (ptr \<times> ptr)) option"
where
  "remove_scan st lib cur prev =
     (case cur of
        None \<Rightarrow> Some (Inr (cur, prev))
      | Some c \<Rightarrow>
          if c = lib then Some (Inr (cur, prev))
          else (case st c of
                  None \<Rightarrow> Some (Inl invalid_memory_access)
                | Some node \<Rightarrow> remove_scan st lib (a_next node) cur))"

text \<open>
  What follows the loop in \<^verbatim>\<open>remove\<close>: the assertion, then the by-pass of the found
  object.
\<close>

definition remove_found ::
  "bool \<Rightarrow> agent_store \<times> AgentLibraryList \<Rightarrow> ptr \<times> ptr \<Rightarrow> error + (agent_store \<times> AgentLibraryList)"
where
  "remove_found asserts = (\<lambda>(st, this) (cur, prev).
     case assert asserts (cur \<noteq> None) ''always should be found'' of
       Inl e \<Rightarrow> Inl e
     | Inr _ \<Rightarrow>
         (case cur of
            None \<Rightarrow> Inr (st, this)
          | Some c \<Rightarrow>
              (case st c of
                 None \<Rightarrow> Inl invalid_memory_access
               | Some cn \<Rightarrow>
                   (case (case prev of
                            None \<Rightarrow> Inr (st, this\<lparr>l_first := a_next cn\<rparr>)
                          | Some p \<Rightarrow>
                              (case set_next st p (a_next cn) of
                                 Inl e \<Rightarrow> Inl e
                               | Inr st1 \<Rightarrow> Inr (st1, this))) of
                      Inl e \<Rightarrow> Inl e
                    | Inr (st1, this1) \<Rightarrow>
                        let this2 = (if cur = l_last this1 then this1\<lparr>l_last := prev\<rparr>
                                     else this1)
                        in (case set_next st1 c None of
                              Inl e \<Rightarrow> Inl e
                            | Inr st2 \<Rightarrow> Inr (st2, this2))))))"

text \<open>\<^verbatim>\<open>void remove(AgentLibrary* lib)\<close>: search for and remove a library known to be in the list.\<close>

definition remove ::
  "bool \<Rightarrow> addr \<Rightarrow> agent_store \<times> AgentLibraryList \<Rightarrow> (error + (agent_store \<times> AgentLibraryList)) option"
where
  "remove asserts lib = (\<lambda>(st, this).
     case remove_scan st lib (l_first this) None of
       None \<Rightarrow> None
     | Some (Inl e) \<Rightarrow> Some (Inl e)
     | Some (Inr cp) \<Rightarrow> Some (remove_found asserts (st, this) cp))"

text \<open>
  The static state of \<^verbatim>\<open>Arguments\<close> that the agent operations use: the two lists
  and the objects they link.
\<close>

record Arguments =
  agent_objects :: agent_store
  libraryList :: AgentLibraryList
  agentList :: AgentLibraryList

text \<open>
  \<^verbatim>\<open>static void convert_library_to_agent(AgentLibrary* lib) { _libraryList.remove(lib); _agentList.add(lib); }\<close>
\<close>

definition convert_library_to_agent :: "bool \<Rightarrow> addr \<Rightarrow> Arguments \<Rightarrow> (error + Arguments) option" where
  "convert_library_to_agent asserts lib s =
     (case remove asserts lib (agent_objects s, libraryList s) of
        None \<Rightarrow> None
      | Some (Inl e) \<Rightarrow> Some (Inl e)
      | Some (Inr (st1, libs1)) \<Rightarrow>
          (case add lib (st1, agentList s) of
             Inl e \<Rightarrow> Some (Inl e)
           | Inr (st2, agents2) \<Rightarrow>
               Some (Inr (s\<lparr>agent_objects := st2, libraryList := libs1, agentList := agents2\<rparr>))))"

text \<open>
  The chain of links from \<open>p\<close>: \<open>chain st p xs q\<close> holds when following \<^verbatim>\<open>_next\<close>
  from \<open>p\<close> visits exactly the objects \<open>xs\<close>, in this order, and then arrives at \<open>q\<close>.
\<close>

fun chain :: "agent_store \<Rightarrow> ptr \<Rightarrow> addr list \<Rightarrow> ptr \<Rightarrow> bool" where
  "chain st p [] q = (p = q)"
| "chain st p (a # as) q =
     (p = Some a \<and> (case st a of None \<Rightarrow> False | Some node \<Rightarrow> chain st (a_next node) as q))"

text \<open>
  A list object represents the sequence \<open>xs\<close> of descriptors: its links lead from
  \<^verbatim>\<open>_first\<close> through \<open>xs\<close> to \<^verbatim>\<open>NULL\<close>, no descriptor occurs twice, and \<^verbatim>\<open>_last\<close> is
  the last of them when there is one.
\<close>

definition list_of :: "agent_store \<Rightarrow> AgentLibraryList \<Rightarrow> addr list \<Rightarrow> bool" where
  "list_of st this xs =
     (chain st (l_first this) xs None \<and> distinct xs \<and>
      (xs \<noteq> [] \<longrightarrow> l_last this = Some (last xs)))"

text \<open>The fields of a descriptor other than its link.\<close>

definition descriptor_fields ::
  "AgentLibrary \<Rightarrow> string \<times> string option \<times> bool \<times> bool \<times> AgentState \<times> ptr"
where
  "descriptor_fields d =
     (a_name d, a_options d, a_is_absolute_path d, a_is_static_lib d, a_state d, a_os_lib d)"


text \<open>A registry used in the examples: libraries 1 and 2, agent 3.\<close>

definition example_agents :: Arguments where
  "example_agents =
     \<lparr>agent_objects =
        [1 \<mapsto> (new_AgentLibrary ''jdwp'' (Some ''transport=dt_socket'') False None)\<lparr>a_next := Some 2\<rparr>,
         2 \<mapsto> new_AgentLibrary ''hprof'' None False None,
         3 \<mapsto> new_AgentLibrary ''instrument'' (Some ''agent.jar'') True None],
      libraryList = \<lparr>l_first = Some 1, l_last = Some 2\<rparr>,
      agentList = \<lparr>l_first = Some 3, l_last = Some 3\<rparr>\<rparr>"


section \<open>The property list\<close>

text \<open>
  \<^verbatim>\<open>SystemProperty(key, value, writeable, internal)\<close>: the base-class constructor copies
  the value, the key is copied and kept.
\<close>

definition new_SystemProperty ::
  "allocator \<Rightarrow> string option \<Rightarrow> string option \<Rightarrow> bool \<Rightarrow> bool \<Rightarrow> cheap \<Rightarrow> error + (cheap \<times> SystemProperty)"
where
  "new_SystemProperty alloc key val wr internal h =
     (case new_PathString alloc val h of
        Inl e \<Rightarrow> Inl e
      | Inr (h1, base) \<Rightarrow>
          Inr (h1, \<lparr>m_value = m_value base, m_key = key, m_internal = internal, m_writeable = wr\<rparr>))"

text \<open>The string a property holds, read through its pointer.\<close>

definition property_value :: "cheap \<Rightarrow> SystemProperty \<Rightarrow> string option" where
  "property_value h p = (case m_value p of None \<Rightarrow> None | Some a \<Rightarrow> h a)"

text \<open>
  Modelled from the spec: \<^verbatim>\<open>PropertyList_unique_add(plist, k, v, append)\<close> is only
  declared in the file. The spec: it scans the ordered list for an existing node with the
  key; if found and \<open>append\<close> is set, appends with the path separator convention; if
  found and \<open>append\<close> is not set, replaces the value; if not found, appends a new node at
  the tail. The list is the sequence of its nodes, the value operations are
  \<open>append_value\<close> and \<open>set_value\<close> of the file (the spec puts no condition on the
  replacement), and a node appended here is writeable and not internal.
\<close>

fun PropertyList_unique_add ::
  "bool \<Rightarrow> allocator \<Rightarrow> string \<Rightarrow> string \<Rightarrow> string \<Rightarrow> bool \<Rightarrow> cheap \<times> SystemProperty list \<Rightarrow>
     error + (cheap \<times> SystemProperty list)"
where
  "PropertyList_unique_add asserts alloc sep k v app (h, []) =
     (case new_SystemProperty alloc (Some k) (Some v) True False h of
        Inl e \<Rightarrow> Inl e
      | Inr (h1, node) \<Rightarrow> Inr (h1, [node]))"
| "PropertyList_unique_add asserts alloc sep k v app (h, p # ps) =
     (if m_key p = Some k then
        (if app then
           (case append_value asserts alloc sep (Some v) (h, p) of
              Inl e \<Rightarrow> Inl e
            | Inr (h1, p1) \<Rightarrow> Inr (h1, p1 # ps))
         else
           (case set_value asserts alloc v (h, p) of
              Inl e \<Rightarrow> Inl e
            | Inr (_, h1, p1) \<Rightarrow> Inr (h1, p1 # ps)))
      else
        (case PropertyList_unique_add asserts alloc sep k v app (h, ps) of
           Inl e \<Rightarrow> Inl e
         | Inr (h1, ps1) \<Rightarrow> Inr (h1, p # ps1)))"

text \<open>
  An allocator that always finds room: whenever finitely many buffers are live it answers a
  buffer that is not in use. The allocator of the examples answers the address after the
  highest live one.
\<close>

definition allocates_fresh :: "allocator \<Rightarrow> bool" where
  "allocates_fresh alloc =
     (\<forall>h n. finite (dom h) \<longrightarrow> (\<exists>a. alloc h n = Some a \<and> h a = None))"

definition next_free :: allocator where
  "next_free h n = Some (if dom h = {} then 0 else Suc (Max (dom h)))"


section \<open>Memory sizes\<close>

text \<open>
  Of the memory-size parser the file has the enumeration \<^verbatim>\<open>ArgsRange\<close> and the
  declarations of \<^verbatim>\<open>parse_memory_size\<close> and \<^verbatim>\<open>check_memory_size\<close>; the parser and its
  parts below follow the spec.
\<close>

datatype ArgsRange = arg_unreadable | arg_too_small | arg_too_big | arg_in_range

text \<open>The values of the enumeration in the file.\<close>

fun ArgsRange_code :: "ArgsRange \<Rightarrow> int" where
  "ArgsRange_code arg_unreadable = - 3"
| "ArgsRange_code arg_too_small = - 2"
| "ArgsRange_code arg_too_big = - 1"
| "ArgsRange_code arg_in_range = 0"

type_synonym julong = "64 word"

definition max_julong :: nat where
  "max_julong = 2 ^ 64 - 1"

definition is_digit :: "char \<Rightarrow> bool" where
  "is_digit c = (c \<in> set ''0123456789'')"

definition digit_value :: "char \<Rightarrow> nat" where
  "digit_value c = of_char c - 48"

text \<open>
  Modelled from the spec: the scan of the unsigned decimal literal at the head of the text
  (a part of the missing \<^verbatim>\<open>parse_memory_size\<close>); it yields the value of the literal and
  what follows it. A digit is one of 0 to 9.
\<close>

fun scan_digits :: "string \<Rightarrow> nat \<Rightarrow> nat \<times> string" where
  "scan_digits [] acc = (acc, [])"
| "scan_digits (c # cs) acc =
     (if is_digit c then scan_digits cs (acc * 10 + digit_value c) else (acc, c # cs))"

text \<open>
  Modelled from the spec: the factors of the unit suffixes (a part of the missing
  \<^verbatim>\<open>parse_memory_size\<close>): k or K is 1024, m or M is 1024 squared, g or G is 1024 cubed.
\<close>

definition K :: nat where "K = 1024"
definition M :: nat where "M = K * K"
definition G :: nat where "G = M * K"

definition unit_multiplier :: "char \<Rightarrow> nat option" where
  "unit_multiplier c =
     (if c = CHR ''k'' \<or> c = CHR ''K'' then Some K
      else if c = CHR ''m'' \<or> c = CHR ''M'' then Some M
      else if c = CHR ''g'' \<or> c = CHR ''G'' then Some G
      else None)"

text \<open>
  Modelled from the spec: \<^verbatim>\<open>check_memory_size\<close> is only declared in the file. The
  spec: the final byte count is compared against \<open>min\<close> and reported too small if lower.
\<close>

definition check_memory_size :: "julong \<Rightarrow> julong \<Rightarrow> ArgsRange" where
  "check_memory_size sz min_size = (if sz < min_size then arg_too_small else arg_in_range)"

text \<open>
  Modelled from the spec: the scaling step of the missing \<^verbatim>\<open>parse_memory_size\<close>. The
  spec: an overflow of the multiplication is detected before it wraps and reported too
  big; the final byte count is compared against the minimum. The byte count comes with
  the status when it is in range.
\<close>

definition scale_memory_size :: "nat \<Rightarrow> nat \<Rightarrow> julong \<Rightarrow> ArgsRange \<times> julong option" where
  "scale_memory_size n unit min_size =
     (if n > max_julong div unit then (arg_too_big, None)
      else let sz = (word_of_nat (n * unit) :: julong)
           in case check_memory_size sz min_size of
                arg_in_range \<Rightarrow> (arg_in_range, Some sz)
              | r \<Rightarrow> (r, None))"

text \<open>
  Modelled from the spec: \<^verbatim>\<open>parse_memory_size(s, long_arg, min_size)\<close> is only declared
  in the file. The spec: it accepts an unsigned decimal literal with an optional
  single-letter unit suffix (k/K, m/M, g/G) meaning a factor of 1024, 1024 squared or 1024
  cubed; malformed numerals and suffix-only or empty input are unreadable.
\<close>

definition parse_memory_size :: "string \<Rightarrow> julong \<Rightarrow> ArgsRange \<times> julong option" where
  "parse_memory_size s min_size =
     (case s of
        [] \<Rightarrow> (arg_unreadable, None)
      | c # _ \<Rightarrow>
          if \<not> is_digit c then (arg_unreadable, None)
          else (case scan_digits s 0 of
                  (n, []) \<Rightarrow> scale_memory_size n 1 min_size
                | (n, [u]) \<Rightarrow>
                    (case unit_multiplier u of
                       None \<Rightarrow> (arg_unreadable, None)
                     | Some unit \<Rightarrow> scale_memory_size n unit min_size)
                | (n, _ # _ # _) \<Rightarrow> (arg_unreadable, None)))"

text \<open>
  For the statement of the parser's property: the number a string of decimal digits
  denotes, by the weight of each position, the unit suffixes with their factors (no suffix
  counts bytes), and the strings that are decimal literals.
\<close>

definition decimal_value :: "string \<Rightarrow> nat" where
  "decimal_value ds = (\<Sum>i < length ds. digit_value (rev ds ! i) * 10 ^ i)"

definition unit_suffixes :: "(string \<times> nat) list" where
  "unit_suffixes =
     [([], 1), (''k'', 1024), (''K'', 1024), (''m'', 1024 * 1024), (''M'', 1024 * 1024),
      (''g'', 1024 * 1024 * 1024), (''G'', 1024 * 1024 * 1024)]"

definition decimal_literal :: "string \<Rightarrow> bool" where
  "decimal_literal ds = (ds \<noteq> [] \<and> (\<forall>c \<in> set ds. is_digit c))"


section \<open>Option sources and resolved flags\<close>

text \<open>
  The classifications of the spec's error handling design that end the resolution. A
  deprecated option is a warning only; diagnostic output is not modelled.
\<close>

datatype resolution_error =
    MalformedToken
  | UnknownOption
  | ExpiredOption
  | ObsoleteOption
  | RangeError
  | ConflictingSelection
  | UnreconcilableBound
  | ExpansionCycle
  | ExpansionDepthExceeded

text \<open>
  Modelled from the spec: the input sources (the file uses \<^verbatim>\<open>Flag::Flags\<close>, which it does
  not define), with their rank in the spec's ascending order of precedence.
\<close>

datatype origin =
    ergonomic_default
  | env_tool_options
  | env_options
  | options_file
  | command_line

fun precedence :: "origin \<Rightarrow> nat" where
  "precedence ergonomic_default = 1"
| "precedence env_tool_options = 2"
| "precedence env_options = 3"
| "precedence options_file = 4"
| "precedence command_line = 5"

record ResolvedFlag =
  flag_value :: string
  flag_origin :: origin

text \<open>Modelled from the spec: the resolved flags, one resolved value per canonical flag name.\<close>

type_synonym flag_table = "string \<rightharpoonup> ResolvedFlag"

text \<open>A token split into name and value; a stream of them is \<^verbatim>\<open>JavaVMInitArgs\<close>.\<close>

type_synonym option_token = "string \<times> string"

datatype alias_state = alias_current | alias_deprecated | alias_expired

type_synonym alias_table = "string \<rightharpoonup> (string \<times> alias_state)"

text \<open>
  Modelled from the spec: \<^verbatim>\<open>handle_aliases_and_deprecation\<close> is only declared in the
  file (it returns the real name of an option, and \<^verbatim>\<open>NULL\<close> if the option has
  expired). The spec: the name is looked up in an alias table; if found, the canonical
  name is substituted, a deprecated alias only warns, and an expired alias fails.
\<close>

definition handle_aliases_and_deprecation :: "alias_table \<Rightarrow> string \<Rightarrow> string option" where
  "handle_aliases_and_deprecation aliases arg =
     (case aliases arg of
        None \<Rightarrow> Some arg
      | Some (real_name, st) \<Rightarrow> if st = alias_expired then None else Some real_name)"

text \<open>
  Modelled from the spec: recording a resolved flag. A later write with equal or higher
  precedence overwrites a former one of lower precedence.
\<close>

definition record_flag :: "flag_table \<Rightarrow> string \<Rightarrow> string \<Rightarrow> origin \<Rightarrow> flag_table" where
  "record_flag flags name val orig =
     (case flags name of
        None \<Rightarrow> flags(name \<mapsto> \<lparr>flag_value = val, flag_origin = orig\<rparr>)
      | Some old \<Rightarrow>
          if precedence (flag_origin old) \<le> precedence orig
          then flags(name \<mapsto> \<lparr>flag_value = val, flag_origin = orig\<rparr>)
          else flags)"

text \<open>
  Modelled from the spec: \<^verbatim>\<open>parse_each_vm_init_arg(args, origin)\<close> is only declared in
  the file. The spec's normalization of each token of a stream, in order: resolve aliases
  (an expired alias is fatal), check the canonical name and its value (obsolescence, the
  flag's declared type; the checks are the parameter \<open>validate\<close>, which answers the
  classification of a failure), and record the flag with the origin of the stream. The
  stream stops at the first fatal outcome.
\<close>

fun parse_each_vm_init_arg ::
  "alias_table \<Rightarrow> (string \<Rightarrow> string \<Rightarrow> resolution_error option) \<Rightarrow> option_token list \<Rightarrow> origin \<Rightarrow>
     flag_table \<Rightarrow> resolution_error + flag_table"
where
  "parse_each_vm_init_arg aliases validate [] orig flags = Inr flags"
| "parse_each_vm_init_arg aliases validate ((name, val) # args) orig flags =
     (case handle_aliases_and_deprecation aliases name of
        None \<Rightarrow> Inl ExpiredOption
      | Some real_name \<Rightarrow>
          (case validate real_name val of
             Some e \<Rightarrow> Inl e
           | None \<Rightarrow>
               parse_each_vm_init_arg aliases validate args orig
                 (record_flag flags real_name val orig)))"

text \<open>
  Modelled from the spec: \<^verbatim>\<open>parse_vm_init_args(java_tool_options_args, java_options_args, cmd_line_args)\<close>
  is only declared in the file. The spec: the sources are taken in fixed precedence order,
  lowest first: the first environment variable, the second environment variable, the
  command line (in which the content of an options file is already expanded in place).
  The table the stage starts from holds the ergonomic defaults.
\<close>

definition parse_vm_init_args ::
  "alias_table \<Rightarrow> (string \<Rightarrow> string \<Rightarrow> resolution_error option) \<Rightarrow>
     option_token list \<Rightarrow> option_token list \<Rightarrow> option_token list \<Rightarrow>
     flag_table \<Rightarrow> resolution_error + flag_table"
where
  "parse_vm_init_args aliases validate java_tool_options_args java_options_args cmd_line_args flags =
     (case parse_each_vm_init_arg aliases validate java_tool_options_args env_tool_options flags of
        Inl e \<Rightarrow> Inl e
      | Inr flags1 \<Rightarrow>
          (case parse_each_vm_init_arg aliases validate java_options_args env_options flags1 of
             Inl e \<Rightarrow> Inl e
           | Inr flags2 \<Rightarrow>
               parse_each_vm_init_arg aliases validate cmd_line_args command_line flags2))"


section \<open>Collector selection and heap sizing\<close>

text \<open>
  Modelled from the spec: the data of the ergonomics resolver, whose functions the file
  only declares. What the resolver reads: the collectors whose selection flag the user set,
  the machine characteristics and sizes the OS-query collaborator supplies, the sizes the
  user gave, and the settings the alignment depends on. The collector kinds are a type
  parameter.
\<close>

record machine =
  processor_count :: nat
  physical_memory_class :: nat

record 'gc ergo_input =
  explicit_collectors :: "'gc list"
  detected_machine :: machine
  large_page_size :: nat
  use_compressed_oops :: bool
  compressed_oops_alignment :: nat
  explicit_min :: "nat option"
  explicit_initial :: "nat option"
  explicit_max :: "nat option"
  os_min :: nat
  os_initial :: nat
  os_max :: nat
  allocatable_memory :: nat

record HeapConfig =
  min_heap_size :: nat
  initial_heap_size :: nat
  max_heap_size :: nat

text \<open>
  Modelled from the spec: how far the staged resolver has come; nothing is computed before
  its stage runs.
\<close>

record 'gc ergo_progress =
  selected_gc :: "'gc option"
  max_heap_alignment :: "nat option"
  heap_config :: "HeapConfig option"

definition unresolved :: "'gc ergo_progress" where
  "unresolved = \<lparr>selected_gc = None, max_heap_alignment = None, heap_config = None\<rparr>"

text \<open>
  Modelled from the spec: \<^verbatim>\<open>check_gc_consistency\<close> is only declared in the file (check
  the user-selected gc). The spec: more than one explicit collector flag is a conflict.
\<close>

definition check_gc_consistency :: "'gc ergo_input \<Rightarrow> bool" where
  "check_gc_consistency inp = (length (remdups (explicit_collectors inp)) \<le> 1)"

text \<open>
  Modelled from the spec: \<^verbatim>\<open>select_gc\<close> is only declared in the file. The spec: if more
  than one explicit collector flag is set, fail fatally; if exactly one is set, use it; if
  none is set, choose one by heuristics over the detected machine characteristics (the
  parameter \<open>heuristic\<close>).
\<close>

definition select_gc :: "(machine \<Rightarrow> 'gc) \<Rightarrow> 'gc ergo_input \<Rightarrow> resolution_error + 'gc" where
  "select_gc heuristic inp =
     (if \<not> check_gc_consistency inp then Inl ConflictingSelection
      else (case remdups (explicit_collectors inp) of
              [] \<Rightarrow> Inr (heuristic (detected_machine inp))
            | gc # _ \<Rightarrow> Inr gc))"

text \<open>
  Modelled from the spec: \<^verbatim>\<open>set_conservative_max_heap_alignment\<close> is only declared in
  the file. The spec: the least common multiple of the chosen collector's granularity
  (the parameter \<open>granularity\<close>), the page size implied by the large-page settings, and
  the alignment compressed addressing requires when it is enabled.
\<close>

definition set_conservative_max_heap_alignment :: "('gc \<Rightarrow> nat) \<Rightarrow> 'gc ergo_input \<Rightarrow> 'gc \<Rightarrow> nat" where
  "set_conservative_max_heap_alignment granularity inp gc =
     lcm (lcm (granularity gc) (large_page_size inp))
         (if use_compressed_oops inp then compressed_oops_alignment inp else 1)"

text \<open>
  Modelled from the spec: rounding a size up to the alignment (a part of the missing
  \<^verbatim>\<open>set_heap_size\<close>).
\<close>

definition align_up :: "nat \<Rightarrow> nat \<Rightarrow> nat" where
  "align_up n alignment = (if alignment = 0 then n else ((n + alignment - 1) div alignment) * alignment)"

text \<open>
  Modelled from the spec: a size is the explicit flag where given, otherwise the OS-derived
  size, capped by the allocatable memory (a part of the missing \<^verbatim>\<open>set_heap_size\<close>).
\<close>

definition derive_size :: "nat option \<Rightarrow> nat \<Rightarrow> nat \<Rightarrow> nat" where
  "derive_size explicit os_size cap = (case explicit of Some v \<Rightarrow> v | None \<Rightarrow> min os_size cap)"

text \<open>
  Modelled from the spec: \<^verbatim>\<open>set_heap_size\<close> is only declared in the file. The spec:
  derive the minimum, initial and maximum heap sizes from explicit flags where given,
  otherwise from a fraction of a resource limit queried from the OS collaborator, capped
  by the allocatable memory; round each size up to the alignment; enforce
  \<open>min \<le> initial \<le> max\<close>, correcting by raising the initial and the maximum size to the
  minimum if violated, never lowering an explicit value; if an explicit value cannot be
  reconciled (an explicit maximum below an explicit minimum, as the user gave them), fail
  fatally. The fractions of the limit are the inputs \<open>os_min\<close>, \<open>os_initial\<close> and
  \<open>os_max\<close>. A violation that raising to the minimum does not remove is not reconciled
  either.
\<close>

definition set_heap_size :: "'gc ergo_input \<Rightarrow> nat \<Rightarrow> resolution_error + HeapConfig" where
  "set_heap_size inp alignment =
     (let mn = align_up (derive_size (explicit_min inp) (os_min inp) (allocatable_memory inp)) alignment;
          ini = align_up (derive_size (explicit_initial inp) (os_initial inp) (allocatable_memory inp)) alignment;
          mx = align_up (derive_size (explicit_max inp) (os_max inp) (allocatable_memory inp)) alignment
      in if (case (explicit_min inp, explicit_max inp) of
               (Some l, Some u) \<Rightarrow> u < l
             | _ \<Rightarrow> False)
         then Inl UnreconcilableBound
         else let ini1 = (if ini < mn then mn else ini);
                  mx1 = (if mx < mn then mn else mx)
              in if mx1 < ini1 then Inl UnreconcilableBound
                 else Inr \<lparr>min_heap_size = mn, initial_heap_size = ini1, max_heap_size = mx1\<rparr>)"

text \<open>
  Modelled from the spec: \<^verbatim>\<open>apply_ergo\<close> is only declared in the file. The spec: the
  stages run in strict order without backtracking: selection, alignment, sizing. A failure
  ends the run with its classification; the progress made up to then comes with it.
\<close>

definition apply_ergo ::
  "(machine \<Rightarrow> 'gc) \<Rightarrow> ('gc \<Rightarrow> nat) \<Rightarrow> 'gc ergo_input \<Rightarrow>
     (resolution_error \<times> 'gc ergo_progress) + 'gc ergo_progress"
where
  "apply_ergo heuristic granularity inp =
     (case select_gc heuristic inp of
        Inl e \<Rightarrow> Inl (e, unresolved)
      | Inr gc \<Rightarrow>
          let a = set_conservative_max_heap_alignment granularity inp gc;
              progress = \<lparr>selected_gc = Some gc, max_heap_alignment = Some a, heap_config = None\<rparr>
          in (case set_heap_size inp a of
                Inl e \<Rightarrow> Inl (e, progress)
              | Inr hc \<Rightarrow> Inr (progress\<lparr>heap_config := Some hc\<rparr>)))"


text \<open>
  Inputs used in the examples: a user who gave only a minimum heap size of 256m on a machine
  for which the OS-derived sizes are 8m, 128m and 1g; a heuristic and collector
  granularities to go with it.
\<close>

definition example_ergo_input :: "string ergo_input" where
  "example_ergo_input =
     \<lparr>explicit_collectors = [], detected_machine = \<lparr>processor_count = 4, physical_memory_class = 2\<rparr>,
      large_page_size = 4096, use_compressed_oops = True, compressed_oops_alignment = 8,
      explicit_min = Some (256 * 1024 * 1024), explicit_initial = None, explicit_max = None,
      os_min = 8 * 1024 * 1024, os_initial = 128 * 1024 * 1024, os_max = 1024 * 1024 * 1024,
      allocatable_memory = 4 * 1024 * 1024 * 1024\<rparr>"

definition example_heuristic :: "machine \<Rightarrow> string" where
  "example_heuristic m =
     (if 2 \<le> processor_count m \<and> 2 \<le> physical_memory_class m then ''G1'' else ''Serial'')"

definition example_granularity :: "string \<Rightarrow> nat" where
  "example_granularity gc = (if gc = ''G1'' then 1024 * 1024 else 512)"


section \<open>Properties of the agent lists\<close>

lemma chain_upd_other:
  "a \<notin> set xs \<Longrightarrow> chain (st(a \<mapsto> n)) p xs q = chain st p xs q"
  by (induction xs arbitrary: p) (auto split: option.splits)

lemma chain_append:
  "chain st p (xs @ ys) q = (\<exists>r. chain st p xs r \<and> chain st r ys q)"
  by (induction xs arbitrary: p) (auto split: option.splits)

lemma chain_objects:
  "chain st p xs q \<Longrightarrow> a \<in> set xs \<Longrightarrow> \<exists>n. st a = Some n"
  by (induction xs arbitrary: p) (auto split: option.splits)

lemma chain_functional:
  "chain st p xs None \<Longrightarrow> chain st p ys None \<Longrightarrow> xs = ys"
proof (induction xs arbitrary: p ys)
  case Nil
  then show ?case by (cases ys) auto
next
  case (Cons a xs)
  then show ?case by (cases ys) (auto split: option.splits)
qed

lemma scan_found:
  "chain st cur (pre @ [lib]) q \<Longrightarrow> lib \<notin> set pre \<Longrightarrow>
   remove_scan st lib cur prev =
     Some (Inr (Some lib, if pre = [] then prev else Some (last pre)))"
proof (induction pre arbitrary: cur prev)
  case Nil
  then show ?case by (subst remove_scan.simps) simp
next
  case (Cons a pre)
  from Cons.prems obtain n where n: "cur = Some a" "st a = Some n" "chain st (a_next n) (pre @ [lib]) q"
    by (auto split: option.splits)
  from Cons.prems have "a \<noteq> lib" "lib \<notin> set pre" by auto
  with Cons.IH [OF n(3), of "Some a"] n show ?case
    by (subst remove_scan.simps) (cases pre; simp)
qed

lemma scan_absent:
  "chain st cur xs None \<Longrightarrow> lib \<notin> set xs \<Longrightarrow>
   remove_scan st lib cur prev =
     Some (Inr (None, if xs = [] then prev else Some (last xs)))"
proof (induction xs arbitrary: cur prev)
  case Nil
  then show ?case by (subst remove_scan.simps) simp
next
  case (Cons a xs)
  from Cons.prems obtain n where n: "cur = Some a" "st a = Some n" "chain st (a_next n) xs None"
    by (auto split: option.splits)
  from Cons.prems have "a \<noteq> lib" "lib \<notin> set xs" by auto
  with Cons.IH [OF n(3), of "Some a"] n show ?case
    by (subst remove_scan.simps) (cases xs; simp)
qed

lemma remove_member:
  assumes wf: "list_of st this xs" and mem: "lib \<in> set xs"
  shows "\<exists>st' this'. remove asserts lib (st, this) = Some (Inr (st', this')) \<and>
           list_of st' this' (remove1 lib xs) \<and>
           (\<forall>a. map_option descriptor_fields (st' a) = map_option descriptor_fields (st a)) \<and>
           (\<forall>a. a \<notin> set xs \<longrightarrow> st' a = st a)"
proof -
  from mem obtain pre post where xs: "xs = pre @ lib # post" and npre: "lib \<notin> set pre"
    by (auto dest: split_list_first)
  from wf have ch: "chain st (l_first this) xs None" and dist: "distinct xs"
    and lst: "l_last this = Some (last xs)"
    using mem by (auto simp: list_of_def)
  from dist xs have npost: "lib \<notin> set post" and disj: "set pre \<inter> set post = {}"
    and dpre: "distinct pre" and dpost: "distinct post" by auto
  from ch xs obtain cn where
    chpre: "chain st (l_first this) pre (Some lib)" and cn: "st lib = Some cn"
    and chpost: "chain st (a_next cn) post None"
    by (auto simp: chain_append split: option.splits)
  from chpre cn have chpl: "chain st (l_first this) (pre @ [lib]) (a_next cn)"
    by (simp add: chain_append)
  have rem1: "remove1 lib xs = pre @ post"
    using xs npre by (simp add: remove1_append)
  let ?cn' = "cn\<lparr>a_next := None\<rparr>"
  show ?thesis
  proof (cases pre rule: rev_cases)
    case Nil
    let ?st' = "st(lib \<mapsto> ?cn')"
    let ?this' = "if Some lib = l_last (this\<lparr>l_first := a_next cn\<rparr>)
                  then this\<lparr>l_first := a_next cn, l_last := None\<rparr> else this\<lparr>l_first := a_next cn\<rparr>"
    have scan: "remove_scan st lib (l_first this) None = Some (Inr (Some lib, None))"
      using scan_found [OF chpl npre, of None] Nil by simp
    have res: "remove asserts lib (st, this) = Some (Inr (?st', ?this'))"
      using scan cn by (simp add: remove_def remove_found_def assert_def set_next_def Let_def)
    have c': "chain ?st' (a_next cn) post None"
      using chpost npost by (simp add: chain_upd_other)
    have l': "post \<noteq> [] \<Longrightarrow> l_last this = Some (last post) \<and> last post \<noteq> lib"
      using lst xs npost by (auto simp: last_append)
    have A: "list_of ?st' ?this' (pre @ post)"
      using c' l' dpost Nil by (auto simp: list_of_def)
    have B: "\<forall>a. map_option descriptor_fields (?st' a) = map_option descriptor_fields (st a)"
      using cn by (auto simp: descriptor_fields_def)
    have C: "\<forall>a. a \<notin> set xs \<longrightarrow> ?st' a = st a"
      using xs by auto
    show ?thesis unfolding rem1
      by (rule exI [of _ ?st'], rule exI [of _ ?this']) (intro conjI res A B C)
  next
    case (snoc pre' p)
    from chpre snoc obtain pn where
      chpre': "chain st (l_first this) pre' (Some p)" and pn: "st p = Some pn"
      and pnext: "a_next pn = Some lib"
      by (auto simp: chain_append split: option.splits)
    from snoc npre dpre disj have neq: "p \<noteq> lib" and pp: "p \<notin> set pre'" and lp: "lib \<notin> set pre'"
      and ppost: "p \<notin> set post" by auto
    let ?pn' = "pn\<lparr>a_next := a_next cn\<rparr>"
    let ?st' = "st(p \<mapsto> ?pn', lib \<mapsto> ?cn')"
    let ?this' = "if Some lib = l_last this then this\<lparr>l_last := Some p\<rparr> else this"
    have scan: "remove_scan st lib (l_first this) None = Some (Inr (Some lib, Some p))"
      using scan_found [OF chpl npre, of None] snoc by simp
    have res: "remove asserts lib (st, this) = Some (Inr (?st', ?this'))"
      using scan cn pn neq
      by (simp add: remove_def remove_found_def assert_def set_next_def Let_def)
    have c1: "chain ?st' (l_first this) pre' (Some p)"
      using chpre' pp lp by (simp add: chain_upd_other)
    have c2: "chain ?st' (a_next cn) post None"
      using chpost npost ppost by (simp add: chain_upd_other)
    have c': "chain ?st' (l_first ?this') (pre @ post) None"
      using c1 c2 neq snoc by (auto simp: chain_append)
    have l': "post \<noteq> [] \<Longrightarrow> l_last this = Some (last post) \<and> last post \<noteq> lib"
      using lst xs npost by (auto simp: last_append)
    have l0: "post = [] \<Longrightarrow> l_last this = Some lib"
      using lst xs by simp
    have A: "list_of ?st' ?this' (pre @ post)"
      unfolding list_of_def
    proof (intro conjI impI)
      show "chain ?st' (l_first ?this') (pre @ post) None" by (rule c')
      show "distinct (pre @ post)" using dpre dpost disj by simp
      show "l_last ?this' = Some (last (pre @ post))"
        using l' l0 snoc by (cases "post = []") auto
    qed
    have B: "\<forall>a. map_option descriptor_fields (?st' a) = map_option descriptor_fields (st a)"
      using cn pn by (auto simp: descriptor_fields_def)
    have C: "\<forall>a. a \<notin> set xs \<longrightarrow> ?st' a = st a"
      using xs snoc by auto
    show ?thesis unfolding rem1
      by (rule exI [of _ ?st'], rule exI [of _ ?this']) (intro conjI res A B C)
  qed
qed

lemma remove_absent:
  assumes wf: "list_of st this xs" and mem: "lib \<notin> set xs"
  shows "remove True lib (st, this) = Some (Inl (assertion_failed ''always should be found''))"
proof -
  from wf have "chain st (l_first this) xs None" by (simp add: list_of_def)
  from scan_absent [OF this mem, of None] show ?thesis
    by (simp add: remove_def remove_found_def assert_def)
qed

lemma remove_absent_guarded:
  assumes wf: "list_of st this xs" and mem: "lib \<notin> set xs"
  shows "remove False lib (st, this) = Some (Inr (st, this))"
proof -
  from wf have "chain st (l_first this) xs None" by (simp add: list_of_def)
  from scan_absent [OF this mem, of None] show ?thesis
    by (simp add: remove_def remove_found_def assert_def)
qed

lemma add_fresh:
  assumes wf: "list_of st this ys" and fresh: "lib \<notin> set ys" and obj: "st lib = Some node"
  shows "\<exists>st' this'. add lib (st, this) = Inr (st', this') \<and>
           list_of st' this' (ys @ [lib]) \<and>
           (\<forall>a. map_option descriptor_fields (st' a) = map_option descriptor_fields (st a)) \<and>
           (\<forall>a. a \<notin> set ys \<and> a \<noteq> lib \<longrightarrow> st' a = st a)"
proof (cases ys rule: rev_cases)
  case Nil
  with wf have e: "l_first this = None" by (simp add: list_of_def)
  let ?st' = "st(lib \<mapsto> node\<lparr>a_next := None\<rparr>)"
  let ?this' = "this\<lparr>l_first := Some lib, l_last := Some lib\<rparr>"
  have res: "add lib (st, this) = Inr (?st', ?this')"
    using e obj by (simp add: add_def is_empty_list_def set_next_def)
  have A: "list_of ?st' ?this' (ys @ [lib])"
    using Nil by (simp add: list_of_def)
  have B: "\<forall>a. map_option descriptor_fields (?st' a) = map_option descriptor_fields (st a)"
    using obj by (auto simp: descriptor_fields_def)
  have C: "\<forall>a. a \<notin> set ys \<and> a \<noteq> lib \<longrightarrow> ?st' a = st a"
    by auto
  show ?thesis
    by (rule exI [of _ ?st'], rule exI [of _ ?this']) (intro conjI res A B C)
next
  case (snoc ys' l)
  with wf obtain ln where ch: "chain st (l_first this) ys' (Some l)" and ln: "st l = Some ln"
    and lnext: "a_next ln = None" and lst: "l_last this = Some l" and d: "distinct ys"
    by (auto simp: list_of_def chain_append split: option.splits)
  from ch snoc obtain f where ne: "l_first this = Some f" by (cases ys') auto
  from snoc fresh d have neq: "l \<noteq> lib" and lys: "l \<notin> set ys'" and libys: "lib \<notin> set ys'" by auto
  let ?st' = "st(l \<mapsto> ln\<lparr>a_next := Some lib\<rparr>, lib \<mapsto> node\<lparr>a_next := None\<rparr>)"
  let ?this' = "this\<lparr>l_last := Some lib\<rparr>"
  have res: "add lib (st, this) = Inr (?st', ?this')"
    using ne lst ln obj neq by (simp add: add_def is_empty_list_def set_next_def)
  have "chain ?st' (l_first this) ys' (Some l)"
    using ch lys libys by (simp add: chain_upd_other)
  then have A: "list_of ?st' ?this' (ys @ [lib])"
    using snoc neq d fresh by (auto simp: list_of_def chain_append)
  have B: "\<forall>a. map_option descriptor_fields (?st' a) = map_option descriptor_fields (st a)"
    using obj ln by (auto simp: descriptor_fields_def)
  have C: "\<forall>a. a \<notin> set ys \<and> a \<noteq> lib \<longrightarrow> ?st' a = st a"
    using snoc by auto
  show ?thesis
    by (rule exI [of _ ?st'], rule exI [of _ ?this']) (intro conjI res A B C)
qed

lemma chain_same_objects:
  "\<forall>a\<in>set xs. st' a = st a \<Longrightarrow> chain st' p xs q = chain st p xs q"
  by (induction xs arbitrary: p) (auto split: option.splits)

lemma list_of_same_objects:
  "\<forall>a\<in>set xs. st' a = st a \<Longrightarrow> list_of st' this xs = list_of st this xs"
  using chain_same_objects [of xs st' st] by (simp add: list_of_def)

text \<open>
  Claim C4. For a descriptor \<open>lib\<close> of the library list, where the two lists represent the
  sequences \<open>libs\<close> and \<open>ags\<close> and share no descriptor (a descriptor lives in exactly one
  of the two lists), \<^verbatim>\<open>convert_library_to_agent(lib)\<close> returns, the agent list then
  represents \<open>ags\<close> followed by \<open>lib\<close>, in which \<open>lib\<close> occurs exactly once, the library
  list represents \<open>libs\<close> without \<open>lib\<close>, in the same order, and the name, options,
  absolute-path flag, static-lib flag, validity state and handle of every descriptor are
  what they were.
\<close>

theorem convert_library_to_agent_moves:
  assumes libs: "list_of (agent_objects s) (libraryList s) libs"
    and ags: "list_of (agent_objects s) (agentList s) ags"
    and disj: "set libs \<inter> set ags = {}"
    and mem: "lib \<in> set libs"
  shows "\<exists>s'. convert_library_to_agent asserts lib s = Some (Inr s') \<and>
           list_of (agent_objects s') (libraryList s') (filter (\<lambda>a. a \<noteq> lib) libs) \<and>
           list_of (agent_objects s') (agentList s') (ags @ [lib]) \<and>
           count_list (ags @ [lib]) lib = 1 \<and>
           count_list (filter (\<lambda>a. a \<noteq> lib) libs) lib = 0 \<and>
           (\<forall>a. map_option descriptor_fields (agent_objects s' a) =
                map_option descriptor_fields (agent_objects s a))"
proof -
  let ?st = "agent_objects s"
  let ?rest = "filter (\<lambda>a. a \<noteq> lib) libs"
  from libs have dl: "distinct libs" by (simp add: list_of_def)
  have keep: "lib \<notin> set xs \<Longrightarrow> filter (\<lambda>a. a \<noteq> lib) xs = xs" for xs
    by (induction xs) auto
  from dl have rest: "remove1 lib libs = ?rest"
    by (induction libs) (auto simp: keep)
  from remove_member [OF libs mem, of asserts] rest obtain st1 libs1 where
    r: "remove asserts lib (?st, libraryList s) = Some (Inr (st1, libs1))"
    and l1: "list_of st1 libs1 ?rest"
    and f1: "\<forall>a. map_option descriptor_fields (st1 a) = map_option descriptor_fields (?st a)"
    and u1: "\<forall>a. a \<notin> set libs \<longrightarrow> st1 a = ?st a"
    by auto
  from disj mem have nag: "lib \<notin> set ags" by auto
  from libs mem obtain n0 where "?st lib = Some n0"
    by (auto simp: list_of_def dest: chain_objects)
  with f1 obtain node where obj: "st1 lib = Some node"
    by (metis map_option_is_None option.exhaust option.distinct(1))
  from u1 disj have e1: "\<forall>a\<in>set ags. st1 a = ?st a" by auto
  have a1: "list_of st1 (agentList s) ags"
    using ags list_of_same_objects [OF e1] by simp
  from add_fresh [OF a1 nag obj] obtain st2 agents2 where
    a: "add lib (st1, agentList s) = Inr (st2, agents2)"
    and l2: "list_of st2 agents2 (ags @ [lib])"
    and f2: "\<forall>a. map_option descriptor_fields (st2 a) = map_option descriptor_fields (st1 a)"
    and u2: "\<forall>a. a \<notin> set ags \<and> a \<noteq> lib \<longrightarrow> st2 a = st1 a"
    by auto
  let ?s' = "s\<lparr>agent_objects := st2, libraryList := libs1, agentList := agents2\<rparr>"
  have res: "convert_library_to_agent asserts lib s = Some (Inr ?s')"
    using r a by (simp add: convert_library_to_agent_def)
  from u2 disj have e2: "\<forall>a\<in>set ?rest. st2 a = st1 a" by auto
  have A: "list_of (agent_objects ?s') (libraryList ?s') ?rest"
    using l1 list_of_same_objects [OF e2] by simp
  have B: "list_of (agent_objects ?s') (agentList ?s') (ags @ [lib])"
    using l2 by simp
  have C: "count_list (ags @ [lib]) lib = 1"
    using nag by (simp add: count_list_0_iff)
  have D: "count_list ?rest lib = 0"
    by (simp add: count_list_0_iff)
  have E: "\<forall>a. map_option descriptor_fields (agent_objects ?s' a) =
               map_option descriptor_fields (agent_objects s a)"
    using f1 f2 by simp
  show ?thesis
    by (rule exI [of _ ?s']) (intro conjI res A B C D E)
qed

theorem convert_library_to_agent_moves_witness:
  "\<exists>s'. convert_library_to_agent True 1 example_agents = Some (Inr s') \<and>
        list_of (agent_objects s') (libraryList s') [2] \<and>
        list_of (agent_objects s') (agentList s') [3, 1] \<and>
        (\<forall>a. map_option descriptor_fields (agent_objects s' a) =
                map_option descriptor_fields (agent_objects example_agents a))"
proof -
  have h1: "list_of (agent_objects example_agents) (libraryList example_agents) [1, 2]"
    by (simp add: example_agents_def list_of_def new_AgentLibrary_def)
  have h2: "list_of (agent_objects example_agents) (agentList example_agents) [3]"
    by (simp add: example_agents_def list_of_def new_AgentLibrary_def)
  have h3: "set [1, 2] \<inter> set [3::nat] = {}" by simp
  have h4: "(1::nat) \<in> set [1, 2]" by simp
  from convert_library_to_agent_moves [OF h1 h2 h3 h4] show ?thesis by auto
qed

text \<open>
  Claim C5. \<^verbatim>\<open>remove\<close> of a descriptor that is not in the list is not a fatal failure in
  every run: where the assertion "always should be found" is not in force, the guard
  \<^verbatim>\<open>if (curr != NULL)\<close> makes \<^verbatim>\<open>remove\<close> return with the list as it was, and
  \<^verbatim>\<open>convert_library_to_agent\<close> returns as well. Descriptor 3 is not in the library list of
  the example registry, which represents the sequence 1, 2.
\<close>

theorem remove_absent_returns_counterexample:
  "list_of (agent_objects example_agents) (libraryList example_agents) [1, 2] \<and>
   remove False 3 (agent_objects example_agents, libraryList example_agents) =
     Some (Inr (agent_objects example_agents, libraryList example_agents)) \<and>
   convert_library_to_agent False 3 example_agents = Some (Inr example_agents)"
proof -
  have h: "list_of (agent_objects example_agents) (libraryList example_agents) [1, 2]"
    by (simp add: example_agents_def list_of_def new_AgentLibrary_def)
  have "(3::nat) \<notin> set [1, 2]" by simp
  from remove_absent_guarded [OF h this]
  have r: "remove False 3 (agent_objects example_agents, libraryList example_agents) =
             Some (Inr (agent_objects example_agents, libraryList example_agents))" .
  have a: "add 3 (agent_objects example_agents, agentList example_agents) =
             Inr (agent_objects example_agents, agentList example_agents)"
    by (simp add: add_def is_empty_list_def set_next_def example_agents_def new_AgentLibrary_def)
  have c: "convert_library_to_agent False 3 example_agents = Some (Inr example_agents)"
    by (simp add: convert_library_to_agent_def r a)
  from h r c show ?thesis by simp
qed

text \<open>
  Claim C5, as amended. On a list that represents the sequence \<open>libs\<close>: where assertions
  are in force, \<^verbatim>\<open>remove\<close> of a descriptor that is not in \<open>libs\<close> ends in the failed
  assertion "always should be found", and so does \<^verbatim>\<open>convert_library_to_agent\<close>; where
  they are not, \<^verbatim>\<open>remove\<close> returns with the list and its objects unchanged. For a
  descriptor in \<open>libs\<close> the search loop stops at the descriptor, so the assertion holds
  and the not-found branch is not reached, and \<^verbatim>\<open>remove\<close> returns normally, with or
  without assertions.
\<close>

theorem remove_always_should_be_found:
  assumes libs: "list_of (agent_objects s) (libraryList s) libs"
  shows "(lib \<notin> set libs \<longrightarrow>
            remove True lib (agent_objects s, libraryList s) =
              Some (Inl (assertion_failed ''always should be found'')) \<and>
            convert_library_to_agent True lib s =
              Some (Inl (assertion_failed ''always should be found'')) \<and>
            remove False lib (agent_objects s, libraryList s) =
              Some (Inr (agent_objects s, libraryList s))) \<and>
         (lib \<in> set libs \<longrightarrow>
            (\<exists>prev. remove_scan (agent_objects s) lib (l_first (libraryList s)) None =
                      Some (Inr (Some lib, prev))) \<and>
            (\<exists>r. remove asserts lib (agent_objects s, libraryList s) = Some (Inr r)))"
proof (intro conjI impI)
  assume absent: "lib \<notin> set libs"
  from remove_absent [OF libs absent]
  show "remove True lib (agent_objects s, libraryList s) =
          Some (Inl (assertion_failed ''always should be found''))" .
  then show "convert_library_to_agent True lib s =
          Some (Inl (assertion_failed ''always should be found''))"
    by (simp add: convert_library_to_agent_def)
  from remove_absent_guarded [OF libs absent]
  show "remove False lib (agent_objects s, libraryList s) =
          Some (Inr (agent_objects s, libraryList s))" .
next
  assume mem: "lib \<in> set libs"
  then obtain pre post where xs: "libs = pre @ lib # post" and npre: "lib \<notin> set pre"
    by (auto dest: split_list_first)
  from libs xs obtain q where "chain (agent_objects s) (l_first (libraryList s)) (pre @ [lib]) q"
    by (auto simp: list_of_def chain_append split: option.splits)
  from scan_found [OF this npre, of None]
  show "\<exists>prev. remove_scan (agent_objects s) lib (l_first (libraryList s)) None =
                      Some (Inr (Some lib, prev))" by blast
  from remove_member [OF libs mem, of asserts]
  show "\<exists>r. remove asserts lib (agent_objects s, libraryList s) = Some (Inr r)" by auto
qed

theorem remove_always_should_be_found_witness:
  "remove True 3 (agent_objects example_agents, libraryList example_agents) =
     Some (Inl (assertion_failed ''always should be found'')) \<and>
   convert_library_to_agent True 3 example_agents =
     Some (Inl (assertion_failed ''always should be found'')) \<and>
   remove False 3 (agent_objects example_agents, libraryList example_agents) =
     Some (Inr (agent_objects example_agents, libraryList example_agents)) \<and>
   (\<exists>r. remove True 2 (agent_objects example_agents, libraryList example_agents) = Some (Inr r)) \<and>
   (\<exists>r. remove False 2 (agent_objects example_agents, libraryList example_agents) = Some (Inr r))"
proof -
  have h: "list_of (agent_objects example_agents) (libraryList example_agents) [1, 2]"
    by (simp add: example_agents_def list_of_def new_AgentLibrary_def)
  from remove_always_should_be_found [OF h, of 3]
    remove_always_should_be_found [OF h, of 2 True]
    remove_always_should_be_found [OF h, of 2 False]
  show ?thesis by simp
qed


section \<open>Properties of the memory-size parser\<close>

lemma decimal_value_Nil: "decimal_value [] = 0"
  by (simp add: decimal_value_def)

lemma decimal_value_Cons:
  "decimal_value (c # ds) = digit_value c * 10 ^ length ds + decimal_value ds"
proof -
  have "\<forall>i < length ds. (rev ds @ [c]) ! i = rev ds ! i"
    by (simp add: nth_append)
  then show ?thesis
    by (simp add: decimal_value_def nth_append)
qed

lemma scan_digits_literal:
  "\<forall>c \<in> set ds. is_digit c \<Longrightarrow> rest = [] \<or> \<not> is_digit (hd rest) \<Longrightarrow>
   scan_digits (ds @ rest) acc = (acc * 10 ^ length ds + decimal_value ds, rest)"
proof (induction ds arbitrary: acc)
  case Nil
  then show ?case by (cases rest) (auto simp: decimal_value_Nil)
next
  case (Cons c ds)
  then show ?case by (simp add: decimal_value_Cons algebra_simps)
qed

lemma scan_digits_split:
  "scan_digits s acc = (n, rest) \<Longrightarrow>
   \<exists>ds. s = ds @ rest \<and> (\<forall>c \<in> set ds. is_digit c) \<and> (rest = [] \<or> \<not> is_digit (hd rest))"
proof (induction s arbitrary: acc)
  case Nil
  then show ?case by simp
next
  case (Cons c s)
  show ?case
  proof (cases "is_digit c")
    case True
    with Cons.prems have "scan_digits s (acc * 10 + digit_value c) = (n, rest)" by simp
    from Cons.IH [OF this] obtain ds where "s = ds @ rest" "\<forall>c \<in> set ds. is_digit c"
      and r: "rest = [] \<or> \<not> is_digit (hd rest)" by blast
    with True have "c # s = (c # ds) @ rest \<and> (\<forall>x \<in> set (c # ds). is_digit x)" by simp
    with r show ?thesis by blast
  next
    case False
    with Cons.prems have "rest = c # s" by simp
    with False show ?thesis by simp
  qed
qed

lemma overflow_detected:
  "0 < unit \<Longrightarrow> (max_julong div unit < n) = (2 ^ 64 \<le> n * unit)"
proof -
  assume "0 < unit"
  then have "(max_julong div unit < n) = (max_julong < n * unit)"
    by (simp add: div_less_iff_less_mult)
  also have "\<dots> = (2 ^ 64 \<le> n * unit)"
    unfolding max_julong_def by auto
  finally show ?thesis .
qed

lemma scale_memory_size_cases:
  assumes "0 < unit"
  shows "scale_memory_size n unit min_size =
           (if 2 ^ 64 \<le> n * unit then (arg_too_big, None)
            else if n * unit < unat min_size then (arg_too_small, None)
            else (arg_in_range, Some (word_of_nat (n * unit))))"
proof (cases "2 ^ 64 \<le> n * unit")
  case True
  then show ?thesis using assms by (simp add: scale_memory_size_def overflow_detected)
next
  case False
  have "unat (word_of_nat (n * unit) :: julong) = (n * unit) mod 2 ^ LENGTH(64)"
    by (rule unat_of_nat)
  with False have "unat (word_of_nat (n * unit) :: julong) = n * unit"
    by (simp del: of_nat_mult)
  then have "((word_of_nat (n * unit) :: julong) < min_size) = (n * unit < unat min_size)"
    by (simp add: word_less_nat_alt del: of_nat_mult)
  then show ?thesis using assms False
    by (simp add: scale_memory_size_def overflow_detected check_memory_size_def Let_def
        del: of_nat_mult)
qed

lemma suffix_cases:
  "(sfx, unit) \<in> set unit_suffixes \<Longrightarrow>
   0 < unit \<and> (sfx = [] \<and> unit = 1 \<or> (\<exists>u. sfx = [u] \<and> \<not> is_digit u \<and> unit_multiplier u = Some unit))"
  by (auto simp: unit_suffixes_def is_digit_def unit_multiplier_def K_def M_def G_def)

lemma unit_multiplier_suffix:
  "unit_multiplier u = Some unit \<Longrightarrow> ([u], unit) \<in> set unit_suffixes"
  by (auto simp: unit_suffixes_def unit_multiplier_def K_def M_def G_def split: if_splits)

lemma parse_literal:
  assumes lit: "decimal_literal ds" and sfx: "(sfx, unit) \<in> set unit_suffixes"
  shows "parse_memory_size (ds @ sfx) min_size = scale_memory_size (decimal_value ds) unit min_size"
proof -
  from lit obtain c cs where ds: "ds = c # cs" and dig: "\<forall>c \<in> set ds. is_digit c"
    by (cases ds) (auto simp: decimal_literal_def)
  from suffix_cases [OF sfx] have r: "sfx = [] \<or> \<not> is_digit (hd sfx)" by auto
  have scan: "scan_digits (ds @ sfx) 0 = (decimal_value ds, sfx)"
    using scan_digits_literal [OF dig r, of 0] by simp
  from dig ds have c: "is_digit c" by simp
  from suffix_cases [OF sfx] show ?thesis
  proof (elim conjE disjE exE)
    assume "sfx = []" "unit = 1"
    with scan c ds show ?thesis by (simp add: parse_memory_size_def)
  next
    fix u assume "sfx = [u]" "unit_multiplier u = Some unit"
    with scan c ds show ?thesis by (simp add: parse_memory_size_def)
  qed
qed

lemma parse_readable:
  assumes "parse_memory_size s min_size \<noteq> (arg_unreadable, None)"
  shows "\<exists>ds sfx unit. s = ds @ sfx \<and> decimal_literal ds \<and> (sfx, unit) \<in> set unit_suffixes"
proof -
  from assms obtain c cs where s: "s = c # cs" and c: "is_digit c"
    by (cases s) (auto simp: parse_memory_size_def split: if_splits)
  obtain n rest where scan: "scan_digits s 0 = (n, rest)" by (cases "scan_digits s 0")
  from scan_digits_split [OF scan] obtain ds where ds: "s = ds @ rest" "\<forall>c \<in> set ds. is_digit c"
    and r: "rest = [] \<or> \<not> is_digit (hd rest)" by blast
  have "ds \<noteq> []"
  proof
    assume "ds = []"
    with ds have "rest = c # cs" using s by simp
    with r c show False by simp
  qed
  with ds have lit: "decimal_literal ds" by (simp add: decimal_literal_def)
  from assms s c scan have "rest = [] \<or> (\<exists>u unit. rest = [u] \<and> unit_multiplier u = Some unit)"
    by (auto simp: parse_memory_size_def split: list.splits option.splits)
  then have "\<exists>unit. (rest, unit) \<in> set unit_suffixes"
  proof (elim disjE exE conjE)
    assume "rest = []"
    then have "(rest, 1) \<in> set unit_suffixes" by (simp add: unit_suffixes_def)
    then show ?thesis ..
  next
    fix u unit assume "rest = [u]" "unit_multiplier u = Some unit"
    then have "(rest, unit) \<in> set unit_suffixes" by (simp add: unit_multiplier_suffix)
    then show ?thesis ..
  qed
  with ds lit show ?thesis by blast
qed

text \<open>
  Claim C1. For a decimal literal \<open>ds\<close> denoting \<open>N\<close>, followed by no suffix or by one of k, K, m,
  M, g, G with factor \<open>unit\<close>: \<^verbatim>\<open>parse_memory_size\<close> answers \<open>arg_in_range\<close> with the value
  \<open>N * unit\<close> when that product is at least the minimum and below \<open>2 ^ 64\<close>,
  \<open>arg_too_small\<close> when the product is below the minimum, and \<open>arg_too_big\<close> when the
  product does not fit in 64 bits; a text that is not of this form (a malformed numeral, a
  suffix alone, the empty text) is \<open>arg_unreadable\<close>.
\<close>

theorem parse_memory_size_units:
  assumes lit: "decimal_literal ds" and sfx: "(sfx, unit) \<in> set unit_suffixes"
  shows "(unat min_size \<le> decimal_value ds * unit \<and> decimal_value ds * unit < 2 ^ 64 \<longrightarrow>
            parse_memory_size (ds @ sfx) min_size =
              (arg_in_range, Some (word_of_nat (decimal_value ds * unit))) \<and>
            unat (word_of_nat (decimal_value ds * unit) :: julong) = decimal_value ds * unit) \<and>
         (decimal_value ds * unit < unat min_size \<longrightarrow>
            parse_memory_size (ds @ sfx) min_size = (arg_too_small, None)) \<and>
         (2 ^ 64 \<le> decimal_value ds * unit \<longrightarrow>
            parse_memory_size (ds @ sfx) min_size = (arg_too_big, None)) \<and>
         ((\<nexists>ds' sfx' unit'. s = ds' @ sfx' \<and> decimal_literal ds' \<and>
                              (sfx', unit') \<in> set unit_suffixes) \<longrightarrow>
            parse_memory_size s min_size = (arg_unreadable, None))"
proof -
  from suffix_cases [OF sfx] have pos: "0 < unit" by simp
  have "unat min_size < 2 ^ 64"
    using unsigned_less [of min_size, where 'a = nat] by simp
  then have small: "decimal_value ds * unit < unat min_size \<Longrightarrow> decimal_value ds * unit < 2 ^ 64"
    by simp
  have p: "parse_memory_size (ds @ sfx) min_size =
             scale_memory_size (decimal_value ds) unit min_size"
    by (rule parse_literal [OF lit sfx])
  show ?thesis
    using parse_readable [of s min_size] small
    by (auto simp: p scale_memory_size_cases [OF pos] unat_of_nat simp del: of_nat_mult)
qed

theorem parse_memory_size_units_witness:
  "parse_memory_size ''512m'' 1 = (arg_in_range, Some (512 * 1024 * 1024)) \<and>
   parse_memory_size ''0g'' 1 = (arg_too_small, None) \<and>
   parse_memory_size ''99999999999999g'' 1 = (arg_too_big, None) \<and>
   parse_memory_size ''abc'' 1 = (arg_unreadable, None)"
proof -
  have l1: "decimal_literal ''512''" and l2: "decimal_literal ''0''"
    and l3: "decimal_literal ''99999999999999''"
    by (simp_all add: decimal_literal_def is_digit_def)
  have m: "(''m'', 1024 * 1024) \<in> set unit_suffixes"
    and g: "(''g'', 1024 * 1024 * 1024) \<in> set unit_suffixes"
    by (simp_all add: unit_suffixes_def)
  have v: "decimal_value ''512'' = 512" "decimal_value ''0'' = 0"
    "decimal_value ''99999999999999'' = 99999999999999"
    by (simp_all add: decimal_value_Cons decimal_value_Nil digit_value_def)
  have bad: "\<nexists>ds' sfx' unit'. ''abc'' = ds' @ sfx' \<and> decimal_literal ds' \<and>
                              (sfx', unit') \<in> set unit_suffixes"
  proof (intro notI, elim exE conjE)
    fix ds' sfx' :: string
    assume e: "''abc'' = ds' @ sfx'" and l: "decimal_literal ds'"
    from l obtain c cs where c: "ds' = c # cs" "is_digit c"
      by (cases ds') (auto simp: decimal_literal_def)
    with e have "c = CHR ''a''" by simp
    with c show False by (simp add: is_digit_def)
  qed
  from parse_memory_size_units [OF l1 m, of 1 "''abc''"]
       parse_memory_size_units [OF l2 g, of 1 "''abc''"]
       parse_memory_size_units [OF l3 g, of 1 "''abc''"] bad
  show ?thesis by (simp add: v)
qed


section \<open>Properties of the path strings, the properties and the append index\<close>

text \<open>
  Claim C8. For a \<^verbatim>\<open>PathString\<close> whose value is the buffer \<open>a\<close> holding \<open>s\<close>, and an argument \<open>p\<close>
  that is not \<^verbatim>\<open>NULL\<close>: when the allocator answers a buffer \<open>b\<close> that is not in use,
  \<^verbatim>\<open>append_value(p)\<close> leaves the value in \<open>b\<close>, which holds \<open>s\<close>, the path separator and
  \<open>p\<close> in this order; the old buffer \<open>a\<close> is freed and is not \<open>b\<close>.
\<close>

theorem append_value_joins:
  assumes cur: "m_value this = Some a" and str: "h a = Some s"
    and alloc: "alloc h (length p + length s + 2) = Some b" and fresh: "h b = None"
  shows "append_value asserts alloc sep (Some p) (h, this) =
           Inr ((h(a := None))(b \<mapsto> s @ sep @ p), this\<lparr>m_value := Some b\<rparr>) \<and>
         b \<noteq> a"
proof -
  from str fresh have neq: "b \<noteq> a" by auto
  then have "(h(b \<mapsto> s @ sep @ p))(a := None) = (h(a := None))(b \<mapsto> s @ sep @ p)"
    by (simp add: fun_upd_twist)
  with neq show ?thesis using cur str alloc
    by (simp add: append_value_def current_string_def cstring_def assert_def strcpy_def
        strcat_def FreeHeap_def)
qed

theorem append_value_joins_witness:
  "append_value True (\<lambda>h n. Some 2) '':'' (Some ''/opt/b.jar'') ([1 \<mapsto> ''/opt/a.jar''], \<lparr>m_value = Some 1\<rparr>) =
     Inr ([2 \<mapsto> ''/opt/a.jar:/opt/b.jar''], \<lparr>m_value = Some 2\<rparr>)"
proof -
  have "append_value True (\<lambda>h n. Some 2) '':'' (Some ''/opt/b.jar'')
          ([1 \<mapsto> ''/opt/a.jar''], \<lparr>m_value = Some (1::nat)\<rparr>) =
        Inr (([1 \<mapsto> ''/opt/a.jar''](1 := None))(2 \<mapsto> ''/opt/a.jar'' @ '':'' @ ''/opt/b.jar''),
             \<lparr>m_value = Some 1\<rparr>\<lparr>m_value := Some 2\<rparr>) \<and> (2::nat) \<noteq> 1"
    by (rule append_value_joins) simp_all
  then show ?thesis by simp
qed

text \<open>
  Claim C9. For a \<^verbatim>\<open>SystemProperty\<close> that is not writeable, \<^verbatim>\<open>set_writeable_value\<close> returns
  \<^verbatim>\<open>false\<close> and leaves the heap and the property as they were; for a writeable one it is
  \<^verbatim>\<open>set_value\<close>, which, when the allocator answers a buffer, returns \<^verbatim>\<open>true\<close> with the
  value in that buffer holding the new string.
\<close>

theorem set_writeable_value_guard:
  "(\<not> m_writeable this \<longrightarrow> set_writeable_value asserts alloc v (h, this) = Inr (False, h, this)) \<and>
   (m_writeable this \<longrightarrow>
      set_writeable_value asserts alloc v (h, this) = set_value asserts alloc v (h, this) \<and>
      (\<forall>a. alloc (case m_value this of None \<Rightarrow> h | Some old \<Rightarrow> FreeHeap h old) (length v + 1) = Some a \<longrightarrow>
           set_writeable_value asserts alloc v (h, this) =
             Inr (True, (case m_value this of None \<Rightarrow> h | Some old \<Rightarrow> FreeHeap h old)(a \<mapsto> v),
                  this\<lparr>m_value := Some a\<rparr>)))"
proof (intro conjI impI allI)
  assume "\<not> m_writeable this"
  then show "set_writeable_value asserts alloc v (h, this) = Inr (False, h, this)"
    by (simp add: set_writeable_value_def writeable_def)
next
  assume w: "m_writeable this"
  then show d: "set_writeable_value asserts alloc v (h, this) = set_value asserts alloc v (h, this)"
    by (simp add: set_writeable_value_def writeable_def)
  fix a
  let ?h1 = "case m_value this of None \<Rightarrow> h | Some old \<Rightarrow> FreeHeap h old"
  assume "alloc ?h1 (length v + 1) = Some a"
  then have "set_value asserts alloc v (h, this) = Inr (True, ?h1(a \<mapsto> v), this\<lparr>m_value := Some a\<rparr>)"
    by (simp add: set_value_def assert_def strcpy_def Let_def)
  with d show "set_writeable_value asserts alloc v (h, this) =
      Inr (True, ?h1(a \<mapsto> v), this\<lparr>m_value := Some a\<rparr>)" by simp
qed

theorem set_writeable_value_guard_witness:
  "set_writeable_value True (\<lambda>h n. Some 2) ''new''
     ([1 \<mapsto> ''old''], \<lparr>m_value = Some 1, m_key = Some ''k'', m_internal = False, m_writeable = False\<rparr>) =
     Inr (False, [1 \<mapsto> ''old''],
          \<lparr>m_value = Some 1, m_key = Some ''k'', m_internal = False, m_writeable = False\<rparr>) \<and>
   set_writeable_value True (\<lambda>h n. Some 2) ''new''
     ([1 \<mapsto> ''old''], \<lparr>m_value = Some 1, m_key = Some ''k'', m_internal = False, m_writeable = True\<rparr>) =
     Inr (True, [2 \<mapsto> ''new''],
          \<lparr>m_value = Some 2, m_key = Some ''k'', m_internal = False, m_writeable = True\<rparr>)"
proof -
  let ?ro = "\<lparr>m_value = Some 1, m_key = Some ''k'', m_internal = False, m_writeable = False\<rparr>"
  let ?rw = "\<lparr>m_value = Some 1, m_key = Some ''k'', m_internal = False, m_writeable = True\<rparr>"
  let ?alloc = "\<lambda>(h::cheap) (n::nat). Some (2::nat)"
  have ro: "\<not> m_writeable ?ro" and rw: "m_writeable ?rw" by simp_all
  note g = set_writeable_value_guard [of _ True ?alloc "''new''" "[1 \<mapsto> ''old'']"]
  from g [of ?ro, THEN conjunct1, THEN mp, OF ro]
  have A: "set_writeable_value True ?alloc ''new'' ([1 \<mapsto> ''old''], ?ro) =
             Inr (False, [1 \<mapsto> ''old''], ?ro)" .
  from g [of ?rw, THEN conjunct2, THEN mp, OF rw, THEN conjunct2, THEN spec, of 2]
  have B: "set_writeable_value True ?alloc ''new'' ([1 \<mapsto> ''old''], ?rw) =
             Inr (True, [2 \<mapsto> ''new''], ?rw\<lparr>m_value := Some 2\<rparr>)"
    by (simp add: FreeHeap_def)
  from A B show ?thesis by simp
qed

text \<open>
  Claim C10. The index is not write-once for every value: a first call that stores
  \<^verbatim>\<open>-1\<close> leaves the sentinel in place, and the next call stores again.
\<close>

theorem set_bootclassloader_append_index_counterexample:
  "set_bootclassloader_append_index 5 (set_bootclassloader_append_index (- 1) (- 1)) \<noteq>
     set_bootclassloader_append_index (- 1) (- 1)"
  by (simp add: set_bootclassloader_append_index_def)

text \<open>
  Claim C10, as amended. \<^verbatim>\<open>set_bootclassloader_append_index(v)\<close> leaves an index other than
  \<^verbatim>\<open>-1\<close> unchanged and stores \<open>v\<close> when the index is \<^verbatim>\<open>-1\<close>; after a first call with a
  value other than \<^verbatim>\<open>-1\<close>, any sequence of later calls leaves that value in place.
\<close>

theorem set_bootclassloader_append_index_once:
  "(idx \<noteq> - 1 \<longrightarrow> set_bootclassloader_append_index v idx = idx) \<and>
   set_bootclassloader_append_index v (- 1) = v \<and>
   (v \<noteq> - 1 \<longrightarrow>
      fold set_bootclassloader_append_index later (set_bootclassloader_append_index v (- 1)) = v)"
proof -
  have keep: "i \<noteq> - 1 \<Longrightarrow> fold set_bootclassloader_append_index ws i = i" for ws i
    by (induction ws) (simp_all add: set_bootclassloader_append_index_def)
  have first: "set_bootclassloader_append_index v (- 1) = v"
    by (simp add: set_bootclassloader_append_index_def)
  have later: "idx \<noteq> - 1 \<longrightarrow> set_bootclassloader_append_index v idx = idx"
    by (simp add: set_bootclassloader_append_index_def)
  from first later keep [of v later] show ?thesis by simp
qed

theorem set_bootclassloader_append_index_once_witness:
  "set_bootclassloader_append_index 9 7 = 7 \<and>
   fold set_bootclassloader_append_index [3, - 1, 9] (set_bootclassloader_append_index 7 (- 1)) = 7"
proof -
  have set: "(7::32 word) \<noteq> - 1" by simp
  from set_bootclassloader_append_index_once
         [where idx = 7 and v = 9, THEN conjunct1, THEN mp, OF set]
  have A: "set_bootclassloader_append_index 9 7 = 7" .
  from set_bootclassloader_append_index_once
         [where v = 7 and later = "[3, - 1, 9]", THEN conjunct2, THEN conjunct2, THEN mp, OF set]
  have B: "fold set_bootclassloader_append_index [3, - 1, 9]
             (set_bootclassloader_append_index 7 (- 1)) = 7" .
  from A B show ?thesis by (rule conjI)
qed


section \<open>Properties of the merging stage\<close>

lemma precedence_command_line: "precedence orig \<le> 5"
  by (cases orig) simp_all

lemma record_flag_command_line:
  "record_flag flags name val command_line name =
     Some \<lparr>flag_value = val, flag_origin = command_line\<rparr>"
  by (simp add: record_flag_def precedence_command_line split: option.splits)

lemma record_flag_other:
  "name' \<noteq> name \<Longrightarrow> record_flag flags name val orig name' = flags name'"
  by (simp add: record_flag_def split: option.splits)

lemma parse_each_untouched:
  "parse_each_vm_init_arg aliases validate args orig flags = Inr flags' \<Longrightarrow>
   \<forall>(k, v) \<in> set args. handle_aliases_and_deprecation aliases k \<noteq> Some n \<Longrightarrow>
   flags' n = flags n"
proof (induction args arbitrary: flags)
  case Nil
  then show ?case by simp
next
  case (Cons tok args)
  obtain k v where tok: "tok = (k, v)" by (cases tok)
  from Cons.prems(1) tok obtain r where r: "handle_aliases_and_deprecation aliases k = Some r"
    and rest: "parse_each_vm_init_arg aliases validate args orig (record_flag flags r v orig) = Inr flags'"
    by (auto split: option.splits)
  from Cons.prems(2) tok r have "r \<noteq> n" by auto
  moreover from Cons.prems(2) have "\<forall>(k, v) \<in> set args. handle_aliases_and_deprecation aliases k \<noteq> Some n"
    by simp
  ultimately show ?case using Cons.IH [OF rest] by (simp add: record_flag_other)
qed

lemma parse_each_last_wins:
  "parse_each_vm_init_arg aliases validate (pre @ (k, v) # post) command_line flags = Inr flags' \<Longrightarrow>
   handle_aliases_and_deprecation aliases k = Some n \<Longrightarrow>
   \<forall>(k', v') \<in> set post. handle_aliases_and_deprecation aliases k' \<noteq> Some n \<Longrightarrow>
   flags' n = Some \<lparr>flag_value = v, flag_origin = command_line\<rparr>"
proof (induction pre arbitrary: flags)
  case Nil
  then have rest: "parse_each_vm_init_arg aliases validate post command_line
                     (record_flag flags n v command_line) = Inr flags'"
    by (auto split: option.splits)
  from parse_each_untouched [OF rest Nil.prems(3)] show ?case
    by (simp add: record_flag_command_line)
next
  case (Cons tok pre)
  obtain k0 v0 where tok: "tok = (k0, v0)" by (cases tok)
  from Cons.prems(1) tok obtain r where
    "parse_each_vm_init_arg aliases validate (pre @ (k, v) # post) command_line
       (record_flag flags r v0 command_line) = Inr flags'"
    by (auto split: option.splits)
  from Cons.IH [OF this Cons.prems(2,3)] show ?case .
qed

text \<open>
  Claim C2. When the merging stage succeeds, and a canonical name is set by a token of an
  environment-variable stream and by a token of the command line, the resolved flag of
  that name holds the value of the last command-line token for the name, with the command
  line as its origin.
\<close>

theorem command_line_overrides_environment:
  assumes ok: "parse_vm_init_args aliases validate java_tool_options_args java_options_args
                 cmd_line_args flags = Inr resolved"
    and env: "(k_env, v_env) \<in> set (java_tool_options_args @ java_options_args)"
      "handle_aliases_and_deprecation aliases k_env = Some name"
    and cmd: "cmd_line_args = pre @ (k, v) # post"
      "handle_aliases_and_deprecation aliases k = Some name"
      "\<forall>(k', v') \<in> set post. handle_aliases_and_deprecation aliases k' \<noteq> Some name"
  shows "resolved name = Some \<lparr>flag_value = v, flag_origin = command_line\<rparr>"
proof -
  from ok obtain flags2 where
    "parse_each_vm_init_arg aliases validate cmd_line_args command_line flags2 = Inr resolved"
    by (auto simp: parse_vm_init_args_def split: sum.splits)
  with cmd(1) have
    "parse_each_vm_init_arg aliases validate (pre @ (k, v) # post) command_line flags2 = Inr resolved"
    by simp
  from parse_each_last_wins [OF this cmd(2,3)] show ?thesis .
qed

theorem command_line_overrides_environment_witness:
  "\<exists>resolved.
     parse_vm_init_args Map.empty (\<lambda>n v. None)
       [(''MaxHeapSize'', ''1g'')] [(''MaxHeapSize'', ''2g'')]
       [(''MaxHeapSize'', ''3g''), (''MaxHeapSize'', ''4g''), (''UseG1GC'', ''+'')] Map.empty = Inr resolved \<and>
     resolved ''MaxHeapSize'' = Some \<lparr>flag_value = ''4g'', flag_origin = command_line\<rparr>"
proof -
  let ?cmd = "[(''MaxHeapSize'', ''3g''), (''MaxHeapSize'', ''4g''), (''UseG1GC'', ''+'')]"
  obtain resolved where ok:
    "parse_vm_init_args Map.empty (\<lambda>n v. None)
       [(''MaxHeapSize'', ''1g'')] [(''MaxHeapSize'', ''2g'')] ?cmd Map.empty = Inr resolved"
    by (simp add: parse_vm_init_args_def handle_aliases_and_deprecation_def)
  have env: "(''MaxHeapSize'', ''2g'') \<in> set ([(''MaxHeapSize'', ''1g'')] @ [(''MaxHeapSize'', ''2g'')])"
    by simp
  have al: "handle_aliases_and_deprecation Map.empty ''MaxHeapSize'' = Some ''MaxHeapSize''"
    by (simp add: handle_aliases_and_deprecation_def)
  have cmd: "?cmd = [(''MaxHeapSize'', ''3g'')] @ (''MaxHeapSize'', ''4g'') # [(''UseG1GC'', ''+'')]"
    by simp
  have post: "\<forall>(k', v') \<in> set [(''UseG1GC'', ''+'')].
                handle_aliases_and_deprecation Map.empty k' \<noteq> Some ''MaxHeapSize''"
    by (simp add: handle_aliases_and_deprecation_def)
  from command_line_overrides_environment [OF ok env al cmd al post] ok show ?thesis by blast
qed


section \<open>Properties of the property list\<close>

lemma set_value_fresh:
  assumes "allocates_fresh alloc" and fin: "finite (dom h)"
  shows "\<exists>a h1. set_value asserts alloc v (h, p) = Inr (True, h1, p\<lparr>m_value := Some a\<rparr>) \<and>
           h1 a = Some v \<and> finite (dom h1)"
proof -
  let ?h0 = "case m_value p of None \<Rightarrow> h | Some a \<Rightarrow> FreeHeap h a"
  from fin have fin0: "finite (dom ?h0)"
    by (simp add: FreeHeap_def split: option.splits)
  with assms obtain a where a: "alloc ?h0 (length v + 1) = Some a"
    unfolding allocates_fresh_def by blast
  then have "set_value asserts alloc v (h, p) = Inr (True, strcpy ?h0 a v, p\<lparr>m_value := Some a\<rparr>)"
    by (simp add: set_value_def assert_def Let_def)
  moreover have "strcpy ?h0 a v a = Some v" by (simp add: strcpy_def)
  moreover from fin0 have "finite (dom (strcpy ?h0 a v))" by (simp add: strcpy_def)
  ultimately show ?thesis by blast
qed

lemma next_free_fresh: "allocates_fresh next_free"
  unfolding allocates_fresh_def
proof (intro allI impI)
  fix h :: cheap and n :: nat
  assume fin: "finite (dom h)"
  show "\<exists>a. next_free h n = Some a \<and> h a = None"
  proof (cases "dom h = {}")
    case True
    then show ?thesis by (simp add: next_free_def)
  next
    case False
    have "Suc (Max (dom h)) \<notin> dom h"
    proof
      assume "Suc (Max (dom h)) \<in> dom h"
      with fin have "Suc (Max (dom h)) \<le> Max (dom h)" by (rule Max_ge)
      then show False by simp
    qed
    then have "h (Suc (Max (dom h))) = None" by (simp add: domIff)
    with False show ?thesis by (simp add: next_free_def)
  qed
qed

lemma new_SystemProperty_fresh:
  assumes "allocates_fresh alloc" and fin: "finite (dom h)"
  shows "\<exists>h1 node. new_SystemProperty alloc (Some k) (Some v) True False h = Inr (h1, node) \<and>
           m_key node = Some k \<and> property_value h1 node = Some v \<and> finite (dom h1)"
proof -
  from assms obtain a where a: "alloc h (length v + 1) = Some a"
    unfolding allocates_fresh_def by blast
  with fin show ?thesis
    by (simp add: new_SystemProperty_def new_PathString_def property_value_def strcpy_def)
qed

lemma unique_add_absent:
  assumes "allocates_fresh alloc" and fin: "finite (dom h)"
  shows "Some k \<notin> set (map m_key ps) \<Longrightarrow>
         \<exists>h1 node. PropertyList_unique_add asserts alloc sep k v app (h, ps) = Inr (h1, ps @ [node]) \<and>
           m_key node = Some k \<and> property_value h1 node = Some v \<and> finite (dom h1)"
proof (induction ps)
  case Nil
  from new_SystemProperty_fresh [OF assms, of k v] show ?case by auto
next
  case (Cons p ps)
  then have "m_key p \<noteq> Some k" "Some k \<notin> set (map m_key ps)" by auto
  with Cons.IH show ?case by auto
qed

lemma unique_add_found:
  assumes "allocates_fresh alloc" and fin: "finite (dom h)"
  shows "Some k \<in> set (map m_key ps) \<Longrightarrow> distinct (map m_key ps) \<Longrightarrow>
         \<exists>h1 ps1. PropertyList_unique_add asserts alloc sep k v False (h, ps) = Inr (h1, ps1) \<and>
           map m_key ps1 = map m_key ps \<and>
           (\<forall>i < length ps. m_key (ps ! i) \<noteq> Some k \<longrightarrow> ps1 ! i = ps ! i) \<and>
           (\<forall>p \<in> set ps1. m_key p = Some k \<longrightarrow> property_value h1 p = Some v) \<and>
           finite (dom h1)"
proof (induction ps)
  case Nil
  then show ?case by simp
next
  case (Cons p ps)
  show ?case
  proof (cases "m_key p = Some k")
    case True
    from set_value_fresh [OF assms, of asserts v p] obtain a h1 where
      sv: "set_value asserts alloc v (h, p) = Inr (True, h1, p\<lparr>m_value := Some a\<rparr>)" and ha: "h1 a = Some v"
      and fin1: "finite (dom h1)"
      by blast
    let ?ps1 = "p\<lparr>m_value := Some a\<rparr> # ps"
    have res: "PropertyList_unique_add asserts alloc sep k v False (h, p # ps) = Inr (h1, ?ps1)"
      using True sv by simp
    have keys: "map m_key ?ps1 = map m_key (p # ps)" by simp
    have others: "\<forall>i < length (p # ps). m_key ((p # ps) ! i) \<noteq> Some k \<longrightarrow> ?ps1 ! i = (p # ps) ! i"
      using True by (auto simp: nth_Cons split: nat.splits)
    from Cons.prems(2) True have "\<forall>q \<in> set ps. m_key q \<noteq> Some k" by force
    then have vals: "\<forall>q \<in> set ?ps1. m_key q = Some k \<longrightarrow> property_value h1 q = Some v"
      using ha by (simp add: property_value_def)
    show ?thesis
      by (rule exI [of _ h1], rule exI [of _ ?ps1]) (intro conjI res keys others vals fin1)
  next
    case False
    with Cons.prems have "Some k \<in> set (map m_key ps)" "distinct (map m_key ps)" by auto
    from Cons.IH [OF this] obtain h1 ps1 where
      r: "PropertyList_unique_add asserts alloc sep k v False (h, ps) = Inr (h1, ps1)"
      and keys: "map m_key ps1 = map m_key ps"
      and others: "\<forall>i < length ps. m_key (ps ! i) \<noteq> Some k \<longrightarrow> ps1 ! i = ps ! i"
      and vals: "\<forall>p \<in> set ps1. m_key p = Some k \<longrightarrow> property_value h1 p = Some v"
      and fin1: "finite (dom h1)"
      by blast
    have res: "PropertyList_unique_add asserts alloc sep k v False (h, p # ps) = Inr (h1, p # ps1)"
      using False r by simp
    have keys': "map m_key (p # ps1) = map m_key (p # ps)" using keys by simp
    have others': "\<forall>i < length (p # ps). m_key ((p # ps) ! i) \<noteq> Some k \<longrightarrow> (p # ps1) ! i = (p # ps) ! i"
      using others by (auto simp: nth_Cons split: nat.splits)
    have vals': "\<forall>q \<in> set (p # ps1). m_key q = Some k \<longrightarrow> property_value h1 q = Some v"
      using vals False by simp
    show ?thesis
      by (rule exI [of _ h1], rule exI [of _ "p # ps1"]) (intro conjI res keys' others' vals' fin1)
  qed
qed

lemma one_node_per_key:
  "distinct (map f xs) \<Longrightarrow> y \<in> set (map f xs) \<Longrightarrow> length (filter (\<lambda>x. f x = y) xs) = 1"
proof (induction xs)
  case Nil
  then show ?case by simp
next
  case (Cons x xs)
  show ?case
  proof (cases "f x = y")
    case True
    from Cons.prems(1) have "f x \<notin> f ` set xs" by simp
    with True have "\<forall>z \<in> set xs. f z \<noteq> y" by blast
    then have "filter (\<lambda>x. f x = y) xs = []" by (simp add: filter_empty_conv)
    with True show ?thesis by simp
  next
    case False
    with Cons show ?thesis by auto
  qed
qed

text \<open>
  Claim C3. On a property list with one node per key, and an allocator that finds room, two calls of
  \<^verbatim>\<open>unique_add\<close> with the same key and \<open>append = false\<close> both return; afterwards exactly
  one node has the key and it holds the value of the second call; the second call leaves
  the keys in the positions they had after the first and every node of another key as it
  was; the first call keeps the positions of the keys when the key was present, and
  appends a new node with the key and the value at the tail when it was not.
\<close>

theorem unique_add_twice:
  assumes fresh: "allocates_fresh alloc" and fin: "finite (dom h)"
    and uniq: "distinct (map m_key ps)"
  shows "\<exists>h1 ps1 h2 ps2.
           PropertyList_unique_add asserts alloc sep k v1 False (h, ps) = Inr (h1, ps1) \<and>
           PropertyList_unique_add asserts alloc sep k v2 False (h1, ps1) = Inr (h2, ps2) \<and>
           map (property_value h2) (filter (\<lambda>p. m_key p = Some k) ps2) = [Some v2] \<and>
           map m_key ps2 = map m_key ps1 \<and>
           (\<forall>i < length ps1. m_key (ps1 ! i) \<noteq> Some k \<longrightarrow> ps2 ! i = ps1 ! i) \<and>
           (Some k \<in> set (map m_key ps) \<longrightarrow> map m_key ps1 = map m_key ps) \<and>
           (Some k \<notin> set (map m_key ps) \<longrightarrow>
              (\<exists>node. ps1 = ps @ [node] \<and> m_key node = Some k \<and>
                      property_value h1 node = Some v1))"
proof -
  have first: "\<exists>h1 ps1. PropertyList_unique_add asserts alloc sep k v1 False (h, ps) = Inr (h1, ps1) \<and>
      Some k \<in> set (map m_key ps1) \<and> distinct (map m_key ps1) \<and> finite (dom h1) \<and>
      (Some k \<in> set (map m_key ps) \<longrightarrow> map m_key ps1 = map m_key ps) \<and>
      (Some k \<notin> set (map m_key ps) \<longrightarrow>
         (\<exists>node. ps1 = ps @ [node] \<and> m_key node = Some k \<and> property_value h1 node = Some v1))"
  proof (cases "Some k \<in> set (map m_key ps)")
    case True
    from unique_add_found [OF fresh fin True uniq, of asserts sep v1] obtain h1 ps1 where
      r: "PropertyList_unique_add asserts alloc sep k v1 False (h, ps) = Inr (h1, ps1)"
      and keys: "map m_key ps1 = map m_key ps" and fin1: "finite (dom h1)" by blast
    from keys True uniq have "Some k \<in> set (map m_key ps1)" "distinct (map m_key ps1)"
      by simp_all
    with r keys True fin1 show ?thesis by blast
  next
    case False
    from unique_add_absent [OF fresh fin False, of asserts sep v1 False] obtain h1 node where
      r: "PropertyList_unique_add asserts alloc sep k v1 False (h, ps) = Inr (h1, ps @ [node])"
      and node: "m_key node = Some k" "property_value h1 node = Some v1"
      and fin1: "finite (dom h1)" by blast
    from node False uniq have "Some k \<in> set (map m_key (ps @ [node]))"
      "distinct (map m_key (ps @ [node]))" by simp_all
    with r node False fin1 show ?thesis by blast
  qed
  then obtain h1 ps1 where
    r1: "PropertyList_unique_add asserts alloc sep k v1 False (h, ps) = Inr (h1, ps1)"
    and mem1: "Some k \<in> set (map m_key ps1)" and d1: "distinct (map m_key ps1)"
    and fin1: "finite (dom h1)"
    and pos: "Some k \<in> set (map m_key ps) \<longrightarrow> map m_key ps1 = map m_key ps"
    and tail: "Some k \<notin> set (map m_key ps) \<longrightarrow>
         (\<exists>node. ps1 = ps @ [node] \<and> m_key node = Some k \<and> property_value h1 node = Some v1)"
    by blast
  from unique_add_found [OF fresh fin1 mem1 d1, of asserts sep v2] obtain h2 ps2 where
    r2: "PropertyList_unique_add asserts alloc sep k v2 False (h1, ps1) = Inr (h2, ps2)"
    and keys: "map m_key ps2 = map m_key ps1"
    and others: "\<forall>i < length ps1. m_key (ps1 ! i) \<noteq> Some k \<longrightarrow> ps2 ! i = ps1 ! i"
    and vals: "\<forall>p \<in> set ps2. m_key p = Some k \<longrightarrow> property_value h2 p = Some v2"
    by blast
  from keys mem1 d1 have "length (filter (\<lambda>p. m_key p = Some k) ps2) = 1"
    by (simp add: one_node_per_key)
  then obtain node where node: "filter (\<lambda>p. m_key p = Some k) ps2 = [node]"
    by (auto simp: length_Suc_conv)
  then have "node \<in> set (filter (\<lambda>p. m_key p = Some k) ps2)" by simp
  with vals have "property_value h2 node = Some v2" by simp
  with node have one: "map (property_value h2) (filter (\<lambda>p. m_key p = Some k) ps2) = [Some v2]"
    by simp
  show ?thesis
    by (rule exI [of _ h1], rule exI [of _ ps1], rule exI [of _ h2], rule exI [of _ ps2])
      (intro conjI r1 r2 one keys others pos tail)
qed

theorem unique_add_twice_witness:
  "(\<exists>h1 ps1 h2 ps2.
      PropertyList_unique_add True next_free '':'' ''java.home'' ''/jdk9'' False
        ([1 \<mapsto> ''/jdk8'', 2 \<mapsto> ''lib''],
         [\<lparr>m_value = Some 1, m_key = Some ''java.home'', m_internal = False, m_writeable = True\<rparr>,
          \<lparr>m_value = Some 2, m_key = Some ''java.library.path'', m_internal = False,
             m_writeable = True\<rparr>]) = Inr (h1, ps1) \<and>
      PropertyList_unique_add True next_free '':'' ''java.home'' ''/jdk10'' False (h1, ps1) = Inr (h2, ps2) \<and>
      map (property_value h2) (filter (\<lambda>p. m_key p = Some ''java.home'') ps2) = [Some ''/jdk10''] \<and>
      map m_key ps2 = [Some ''java.home'', Some ''java.library.path'']) \<and>
   (\<exists>h1 node.
      PropertyList_unique_add True next_free '':'' ''user.dir'' ''/tmp'' False
        ([1 \<mapsto> ''/jdk8'', 2 \<mapsto> ''lib''],
         [\<lparr>m_value = Some 1, m_key = Some ''java.home'', m_internal = False, m_writeable = True\<rparr>,
          \<lparr>m_value = Some 2, m_key = Some ''java.library.path'', m_internal = False,
             m_writeable = True\<rparr>]) =
        Inr (h1,
         [\<lparr>m_value = Some 1, m_key = Some ''java.home'', m_internal = False, m_writeable = True\<rparr>,
          \<lparr>m_value = Some 2, m_key = Some ''java.library.path'', m_internal = False,
             m_writeable = True\<rparr>, node]) \<and>
      m_key node = Some ''user.dir'' \<and> property_value h1 node = Some ''/tmp'')"
proof -
  let ?h = "[1 \<mapsto> ''/jdk8'', 2 \<mapsto> ''lib''] :: cheap"
  let ?ps = "[\<lparr>m_value = Some 1, m_key = Some ''java.home'', m_internal = False, m_writeable = True\<rparr>,
         \<lparr>m_value = Some 2, m_key = Some ''java.library.path'', m_internal = False,
            m_writeable = True\<rparr>]"
  have fin: "finite (dom ?h)" by simp
  have uniq: "distinct (map m_key ?ps)" by simp
  have mem: "Some ''java.home'' \<in> set (map m_key ?ps)" by simp
  from unique_add_twice [OF next_free_fresh fin uniq, of True "'':''" "''java.home''" "''/jdk9''" "''/jdk10''"]
  obtain h1 ps1 h2 ps2 where
    r1: "PropertyList_unique_add True next_free '':'' ''java.home'' ''/jdk9'' False (?h, ?ps) = Inr (h1, ps1)"
    and r2: "PropertyList_unique_add True next_free '':'' ''java.home'' ''/jdk10'' False (h1, ps1) = Inr (h2, ps2)"
    and one: "map (property_value h2) (filter (\<lambda>p. m_key p = Some ''java.home'') ps2) = [Some ''/jdk10'']"
    and k2: "map m_key ps2 = map m_key ps1"
    and k1: "Some ''java.home'' \<in> set (map m_key ?ps) \<longrightarrow> map m_key ps1 = map m_key ?ps"
    by (elim exE conjE) (rule that; assumption)
  from k1 mem k2 have keys: "map m_key ps2 = [Some ''java.home'', Some ''java.library.path'']"
    by simp
  have A: "\<exists>h1 ps1 h2 ps2.
      PropertyList_unique_add True next_free '':'' ''java.home'' ''/jdk9'' False (?h, ?ps) = Inr (h1, ps1) \<and>
      PropertyList_unique_add True next_free '':'' ''java.home'' ''/jdk10'' False (h1, ps1) = Inr (h2, ps2) \<and>
      map (property_value h2) (filter (\<lambda>p. m_key p = Some ''java.home'') ps2) = [Some ''/jdk10''] \<and>
      map m_key ps2 = [Some ''java.home'', Some ''java.library.path'']"
    by (rule exI [of _ h1], rule exI [of _ ps1], rule exI [of _ h2], rule exI [of _ ps2])
      (intro conjI r1 r2 one keys)
  have absent: "Some ''user.dir'' \<notin> set (map m_key ?ps)" by simp
  from unique_add_twice [OF next_free_fresh fin uniq, of True "'':''" "''user.dir''" "''/tmp''" "''/var''"]
  obtain g1 qs1 where
    s1: "PropertyList_unique_add True next_free '':'' ''user.dir'' ''/tmp'' False (?h, ?ps) = Inr (g1, qs1)"
    and tail: "Some ''user.dir'' \<notin> set (map m_key ?ps) \<longrightarrow>
      (\<exists>node. qs1 = ?ps @ [node] \<and> m_key node = Some ''user.dir'' \<and>
              property_value g1 node = Some ''/tmp'')"
    by (elim exE conjE) (rule that; assumption)
  from tail absent obtain node where
    "qs1 = ?ps @ [node]" "m_key node = Some ''user.dir''" "property_value g1 node = Some ''/tmp''"
    by blast
  with s1 have B: "\<exists>h1 node.
      PropertyList_unique_add True next_free '':'' ''user.dir'' ''/tmp'' False (?h, ?ps) =
        Inr (h1, ?ps @ [node]) \<and>
      m_key node = Some ''user.dir'' \<and> property_value h1 node = Some ''/tmp''"
    by blast
  from A B show ?thesis by simp
qed


section \<open>Properties of heap sizing\<close>

lemma align_up_ge: "n \<le> align_up n a"
proof (cases "a = 0")
  case True
  then show ?thesis by (simp add: align_up_def)
next
  case False
  then have "n + a - 1 < (n + a - 1) div a * a + a"
    using mod_less_divisor [of a "n + a - 1"] div_mult_mod_eq [of "n + a - 1" a] by linarith
  then have "n \<le> (n + a - 1) div a * a" using False by simp
  with False show ?thesis by (simp add: align_up_def)
qed

text \<open>
  Claim C6. When heap sizing succeeds, the configuration satisfies \<open>min \<le> initial \<le> max\<close>; the
  minimum is the derived, rounded minimum, and the initial and the maximum size are their
  derived, rounded sizes raised to the minimum where they were below it; no size is below
  the value the user gave for it; with an explicit minimum of 256m the initial and the
  maximum size are at least 256m. An explicit maximum below an explicit minimum fails with
  \<open>UnreconcilableBound\<close>.
\<close>

theorem set_heap_size_bounds:
  "(\<forall>cfg. set_heap_size inp a = Inr cfg \<longrightarrow>
      min_heap_size cfg \<le> initial_heap_size cfg \<and> initial_heap_size cfg \<le> max_heap_size cfg \<and>
      min_heap_size cfg =
        align_up (derive_size (explicit_min inp) (os_min inp) (allocatable_memory inp)) a \<and>
      initial_heap_size cfg =
        max (align_up (derive_size (explicit_initial inp) (os_initial inp) (allocatable_memory inp)) a)
            (min_heap_size cfg) \<and>
      max_heap_size cfg =
        max (align_up (derive_size (explicit_max inp) (os_max inp) (allocatable_memory inp)) a)
            (min_heap_size cfg) \<and>
      (\<forall>v. explicit_min inp = Some v \<longrightarrow> v \<le> min_heap_size cfg) \<and>
      (\<forall>v. explicit_initial inp = Some v \<longrightarrow> v \<le> initial_heap_size cfg) \<and>
      (\<forall>v. explicit_max inp = Some v \<longrightarrow> v \<le> max_heap_size cfg) \<and>
      (explicit_min inp = Some (256 * 1024 * 1024) \<longrightarrow>
         256 * 1024 * 1024 \<le> initial_heap_size cfg \<and> 256 * 1024 * 1024 \<le> max_heap_size cfg)) \<and>
   (\<forall>l u. explicit_min inp = Some l \<and> explicit_max inp = Some u \<and> u < l \<longrightarrow>
      set_heap_size inp a = Inl UnreconcilableBound)"
proof (intro conjI allI impI)
  fix l u
  assume "explicit_min inp = Some l \<and> explicit_max inp = Some u \<and> u < l"
  then show "set_heap_size inp a = Inl UnreconcilableBound"
    by (simp add: set_heap_size_def Let_def)
next
  fix cfg
  assume ok: "set_heap_size inp a = Inr cfg"
  let ?mn = "align_up (derive_size (explicit_min inp) (os_min inp) (allocatable_memory inp)) a"
  let ?ini = "align_up (derive_size (explicit_initial inp) (os_initial inp) (allocatable_memory inp)) a"
  let ?mx = "align_up (derive_size (explicit_max inp) (os_max inp) (allocatable_memory inp)) a"
  from ok have cfg: "cfg = \<lparr>min_heap_size = ?mn, initial_heap_size = max ?ini ?mn,
                             max_heap_size = max ?mx ?mn\<rparr>"
    and le: "max ?ini ?mn \<le> max ?mx ?mn"
    by (auto simp: set_heap_size_def Let_def max_def split: if_splits)
  show mn: "min_heap_size cfg = ?mn" by (simp add: cfg)
  show ini: "initial_heap_size cfg = max ?ini (min_heap_size cfg)" by (simp add: cfg)
  show mx: "max_heap_size cfg = max ?mx (min_heap_size cfg)" by (simp add: cfg)
  show "min_heap_size cfg \<le> initial_heap_size cfg" by (simp add: cfg)
  show "initial_heap_size cfg \<le> max_heap_size cfg" using le by (simp add: cfg)
  show emin: "v \<le> min_heap_size cfg" if "explicit_min inp = Some v" for v
    using that align_up_ge [of v a] by (simp add: cfg derive_size_def)
  show "v \<le> initial_heap_size cfg" if "explicit_initial inp = Some v" for v
    using that align_up_ge [of v a] by (simp add: cfg derive_size_def)
  show "v \<le> max_heap_size cfg" if "explicit_max inp = Some v" for v
    using that align_up_ge [of v a] by (simp add: cfg derive_size_def)
  assume m: "explicit_min inp = Some (256 * 1024 * 1024)"
  from emin [OF m] have "256 * 1024 * 1024 \<le> ?mn" by (simp add: cfg)
  then show "256 * 1024 * 1024 \<le> initial_heap_size cfg" "256 * 1024 * 1024 \<le> max_heap_size cfg"
    by (simp_all add: cfg)
qed

theorem set_heap_size_bounds_witness:
  "(\<exists>cfg. set_heap_size example_ergo_input (2 * 1024 * 1024) = Inr cfg \<and>
          min_heap_size cfg \<le> initial_heap_size cfg \<and>
          initial_heap_size cfg \<le> max_heap_size cfg \<and>
          256 * 1024 * 1024 \<le> initial_heap_size cfg \<and>
          256 * 1024 * 1024 \<le> max_heap_size cfg) \<and>
   set_heap_size (example_ergo_input\<lparr>explicit_max := Some (128 * 1024 * 1024)\<rparr>) (2 * 1024 * 1024) =
     Inl UnreconcilableBound"
proof -
  let ?a = "2 * 1024 * 1024 :: nat"
  let ?cfg = "\<lparr>min_heap_size = 256 * 1024 * 1024, initial_heap_size = 256 * 1024 * 1024,
               max_heap_size = 1024 * 1024 * 1024\<rparr>"
  have ok: "set_heap_size example_ergo_input ?a = Inr ?cfg"
    by (simp add: set_heap_size_def example_ergo_input_def derive_size_def align_up_def)
  have m: "explicit_min example_ergo_input = Some (256 * 1024 * 1024)"
    by (simp add: example_ergo_input_def)
  note t = set_heap_size_bounds [of example_ergo_input ?a, THEN conjunct1, THEN spec, THEN mp, OF ok]
  from t m have A: "min_heap_size ?cfg \<le> initial_heap_size ?cfg \<and>
      initial_heap_size ?cfg \<le> max_heap_size ?cfg \<and>
      256 * 1024 * 1024 \<le> initial_heap_size ?cfg \<and> 256 * 1024 * 1024 \<le> max_heap_size ?cfg"
    by blast
  let ?inp2 = "example_ergo_input\<lparr>explicit_max := Some (128 * 1024 * 1024)\<rparr>"
  have "explicit_min ?inp2 = Some (256 * 1024 * 1024) \<and> explicit_max ?inp2 = Some (128 * 1024 * 1024) \<and>
        (128 * 1024 * 1024 :: nat) < 256 * 1024 * 1024"
    by (simp add: example_ergo_input_def)
  with set_heap_size_bounds [of ?inp2 ?a, THEN conjunct2]
  have B: "set_heap_size ?inp2 ?a = Inl UnreconcilableBound" by blast
  from ok A B show ?thesis by blast
qed


section \<open>Properties of collector selection\<close>

text \<open>
  Claim C7. With more than one explicit collector flag, selection fails with
  \<open>ConflictingSelection\<close> and the resolver ends there, with no collector selected and neither
  the alignment nor the heap sizes computed; with exactly one explicit collector, that
  collector is selected; with none, the collector the heuristic chooses for the detected
  machine.
\<close>

theorem select_gc_conflict:
  "(1 < length (remdups (explicit_collectors inp)) \<longrightarrow>
      select_gc heuristic inp = Inl ConflictingSelection \<and>
      apply_ergo heuristic granularity inp = Inl (ConflictingSelection, unresolved)) \<and>
   (\<forall>gc. remdups (explicit_collectors inp) = [gc] \<longrightarrow>
      select_gc heuristic inp = Inr gc \<and>
      (\<forall>r. apply_ergo heuristic granularity inp = Inr r \<longrightarrow> selected_gc r = Some gc)) \<and>
   (explicit_collectors inp = [] \<longrightarrow>
      select_gc heuristic inp = Inr (heuristic (detected_machine inp)) \<and>
      (\<forall>r. apply_ergo heuristic granularity inp = Inr r \<longrightarrow>
           selected_gc r = Some (heuristic (detected_machine inp))))"
proof (intro conjI allI impI)
  assume "1 < length (remdups (explicit_collectors inp))"
  then show c: "select_gc heuristic inp = Inl ConflictingSelection"
    by (simp add: select_gc_def check_gc_consistency_def)
  then show "apply_ergo heuristic granularity inp = Inl (ConflictingSelection, unresolved)"
    by (simp add: apply_ergo_def)
next
  fix gc assume "remdups (explicit_collectors inp) = [gc]"
  then show s: "select_gc heuristic inp = Inr gc"
    by (simp add: select_gc_def check_gc_consistency_def)
  fix r assume "apply_ergo heuristic granularity inp = Inr r"
  with s show "selected_gc r = Some gc"
    by (auto simp: apply_ergo_def Let_def split: sum.splits)
next
  assume "explicit_collectors inp = []"
  then show s: "select_gc heuristic inp = Inr (heuristic (detected_machine inp))"
    by (simp add: select_gc_def check_gc_consistency_def)
  fix r assume "apply_ergo heuristic granularity inp = Inr r"
  with s show "selected_gc r = Some (heuristic (detected_machine inp))"
    by (auto simp: apply_ergo_def Let_def split: sum.splits)
qed

theorem select_gc_conflict_witness:
  "apply_ergo example_heuristic example_granularity
     (example_ergo_input\<lparr>explicit_collectors := [''G1'', ''Parallel''],
                          explicit_max := Some (128 * 1024 * 1024)\<rparr>) =
     Inl (ConflictingSelection, \<lparr>selected_gc = None, max_heap_alignment = None, heap_config = None\<rparr>) \<and>
   select_gc example_heuristic (example_ergo_input\<lparr>explicit_collectors := [''Parallel'']\<rparr>) =
     Inr ''Parallel'' \<and>
   apply_ergo example_heuristic example_granularity
     (example_ergo_input\<lparr>explicit_collectors := [''Parallel'']\<rparr>) =
     Inr \<lparr>selected_gc = Some ''Parallel'', max_heap_alignment = Some 4096,
          heap_config = Some \<lparr>min_heap_size = 256 * 1024 * 1024,
                               initial_heap_size = 256 * 1024 * 1024,
                               max_heap_size = 1024 * 1024 * 1024\<rparr>\<rparr> \<and>
   select_gc example_heuristic example_ergo_input = Inr ''G1''"
proof -
  let ?two = "example_ergo_input\<lparr>explicit_collectors := [''G1'', ''Parallel''],
                          explicit_max := Some (128 * 1024 * 1024)\<rparr>"
  let ?one = "example_ergo_input\<lparr>explicit_collectors := [''Parallel'']\<rparr>"
  note t = select_gc_conflict [where heuristic = example_heuristic and granularity = example_granularity]
  have two: "1 < length (remdups (explicit_collectors ?two))" by simp
  from t [of ?two, THEN conjunct1, THEN mp, OF two]
  have A: "apply_ergo example_heuristic example_granularity ?two =
             Inl (ConflictingSelection, \<lparr>selected_gc = None, max_heap_alignment = None, heap_config = None\<rparr>)"
    by (simp add: unresolved_def)
  have one: "remdups (explicit_collectors ?one) = [''Parallel'']" by simp
  note o = t [of ?one, THEN conjunct2, THEN conjunct1, THEN spec, THEN mp, OF one]
  have l: "lcm (lcm (512::nat) 4096) 8 = 4096"
    by (simp add: lcm_nat_def)
  have run: "apply_ergo example_heuristic example_granularity ?one =
      Inr \<lparr>selected_gc = Some ''Parallel'', max_heap_alignment = Some 4096,
           heap_config = Some \<lparr>min_heap_size = 256 * 1024 * 1024,
                                initial_heap_size = 256 * 1024 * 1024,
                                max_heap_size = 1024 * 1024 * 1024\<rparr>\<rparr>"
    by (simp add: apply_ergo_def select_gc_def check_gc_consistency_def set_heap_size_def
        example_ergo_input_def derive_size_def align_up_def Let_def
        set_conservative_max_heap_alignment_def example_granularity_def l)
  from o have B: "select_gc example_heuristic ?one = Inr ''Parallel''"
    by blast
  have none: "explicit_collectors example_ergo_input = []" by (simp add: example_ergo_input_def)
  from t [of example_ergo_input, THEN conjunct2, THEN conjunct2, THEN mp, OF none]
  have C: "select_gc example_heuristic example_ergo_input = Inr ''G1''"
    by (simp add: example_heuristic_def example_ergo_input_def)
  from A B run C show ?thesis by blast
qed

end
